theory Spec2Isabelle
  imports Main
begin

section \<open>Errors, scopes and pointers\<close>

text \<open>
  A Go \<^verbatim>\<open>error\<close> value is modelled as \<open>error option\<close>: \<open>None\<close> is \<^verbatim>\<open>nil\<close>.
  The two package-level sentinels \<^verbatim>\<open>ErrContinueWait\<close> and \<^verbatim>\<open>ErrNotMatch\<close> are
  constructors of their own, so that the identity comparison \<^verbatim>\<open>err == ErrContinueWait\<close>
  of the source is equality here. \<^verbatim>\<open>ctx.Err()\<close> of a context whose \<^verbatim>\<open>Done\<close> channel is
  closed is one of the two errors of package \<^verbatim>\<open>context\<close>.
\<close>

datatype ctx_error = Canceled | DeadlineExceeded

datatype error = ErrContinueWait | ErrNotMatch | CtxErr ctx_error | Failure string

type_synonym err = "error option"

text \<open>The state of a scope: \<open>None\<close> while it is live, \<open>Some e\<close> once it is done.\<close>

type_synonym scope = "ctx_error option"

datatype panic = Panic string

text \<open>A pointer argument: \<^verbatim>\<open>nil\<close> or the address of a variable of the caller.\<close>

datatype ptr = NilPtr | Ref nat


section \<open>Constructors with a required output slot\<close>

text \<open>
  The closures the constructors return are kept as data: the protocol request each one
  sends and the slots it writes. A construction that panics returns \<open>Inl\<close>, and then no
  action value exists.
\<close>

datatype cdp_action =
    GetNavigationHistoryInto ptr ptr
  | CaptureScreenshotInto ptr
  | GetAllCookiesInto ptr

definition NavigationEntries :: "ptr \<Rightarrow> ptr \<Rightarrow> panic + cdp_action" where
  "NavigationEntries currentIndex entries =
     (if currentIndex = NilPtr \<or> entries = NilPtr
      then Inl (Panic ''currentIndex and entries cannot be nil'')
      else Inr (GetNavigationHistoryInto currentIndex entries))"

definition CaptureScreenshot :: "ptr \<Rightarrow> panic + cdp_action" where
  "CaptureScreenshot res =
     (if res = NilPtr then Inl (Panic ''res cannot be nil'')
      else Inr (CaptureScreenshotInto res))"

definition GetCookies :: "ptr \<Rightarrow> panic + cdp_action" where
  "GetCookies cookies =
     (if cookies = NilPtr then Inl (Panic ''cookies cannot be nil'')
      else Inr (GetAllCookiesInto cookies))"

text \<open>
  \<^verbatim>\<open>Location\<close> and \<^verbatim>\<open>Title\<close> hand their slot to \<^verbatim>\<open>EvaluateAsDevTools\<close>, which is
  defined outside these source files; it is the parameter \<open>evaluateAsDevTools\<close>.
\<close>

definition Location :: "(string \<Rightarrow> ptr \<Rightarrow> panic + 'a) \<Rightarrow> ptr \<Rightarrow> panic + 'a" where
  "Location evaluateAsDevTools urlstr =
     (if urlstr = NilPtr then Inl (Panic ''urlstr cannot be nil'')
      else evaluateAsDevTools ''document.location.toString()'' urlstr)"

definition Title :: "(string \<Rightarrow> ptr \<Rightarrow> panic + 'a) \<Rightarrow> ptr \<Rightarrow> panic + 'a" where
  "Title evaluateAsDevTools title =
     (if title = NilPtr then Inl (Panic ''title cannot be nil'')
      else evaluateAsDevTools ''document.title'' title)"


section \<open>Navigation options\<close>

datatype event = EventLoadEventFired | EventFrameNavigated | OtherEvent string

text \<open>
  \<^verbatim>\<open>func(ctx context.Context, ev interface{}) error\<close>: the predicate sees the state of
  the scope it is given and the event.
\<close>

type_synonym wait_func = "scope \<Rightarrow> event \<Rightarrow> err"

record navOptions =
  wait :: "wait_func option"

type_synonym NavigateOption = "navOptions \<Rightarrow> navOptions"

definition NavigateWaitFunc :: "wait_func option \<Rightarrow> NavigateOption" where
  "NavigateWaitFunc w opts = opts\<lparr>wait := w\<rparr>"

definition NavigateNoWait :: NavigateOption where
  "NavigateNoWait opts = opts\<lparr>wait := None\<rparr>"

definition loadEventFired :: wait_func where
  "loadEventFired ctx ev =
     (case ev of EventLoadEventFired \<Rightarrow> None | _ \<Rightarrow> Some ErrNotMatch)"

definition frameNavigated :: wait_func where
  "frameNavigated ctx ev =
     (case ev of EventFrameNavigated \<Rightarrow> None | _ \<Rightarrow> Some ErrNotMatch)"

definition NavigateWaitEventLoadEventFired :: NavigateOption where
  "NavigateWaitEventLoadEventFired opts = opts\<lparr>wait := Some loadEventFired\<rparr>"

definition NavigateWaitEventFrameNavigated :: NavigateOption where
  "NavigateWaitEventFrameNavigated opts = opts\<lparr>wait := Some frameNavigated\<rparr>"

text \<open>
  The head of \<^verbatim>\<open>waitNavEvent\<close>: the zero \<^verbatim>\<open>navOptions\<close>, the default, then every
  option in the order given.
\<close>

definition navOptions_of :: "NavigateOption list \<Rightarrow> navOptions" where
  "navOptions_of opts =
     foldl (\<lambda>options o'. o' options) (NavigateWaitEventLoadEventFired \<lparr>wait = None\<rparr>) opts"


section \<open>The callback of \<^verbatim>\<open>waitNavEvent\<close>\<close>

text \<open>
  \<^verbatim>\<open>ch := make(chan struct{})\<close> is only ever closed: it is open or closed, and closing
  a closed channel panics. \<open>lctx_cancelled\<close> records that \<^verbatim>\<open>cancel()\<close> of
  \<^verbatim>\<open>lctx\<close> has run, \<open>ctx_state\<close> is the state of the caller's scope, and \<open>closes\<close>
  counts the \<^verbatim>\<open>close(ch)\<close> calls that went through (one completion signal each).
  \<open>late\<close> belongs to the subscription: the number of events that it still passes to the
  callback after \<^verbatim>\<open>lctx\<close> is done.
\<close>

datatype chan = Open | Closed

record nav_state =
  ctx_state :: scope
  lctx_cancelled :: bool
  ch :: chan
  closes :: nat
  late :: nat

definition nav_init :: "scope \<Rightarrow> nat \<Rightarrow> nav_state" where
  "nav_init c l = \<lparr>ctx_state = c, lctx_cancelled = False, ch = Open, closes = 0, late = l\<rparr>"

definition cancel_lctx :: "nav_state \<Rightarrow> nav_state" where
  "cancel_lctx s = s\<lparr>lctx_cancelled := True\<rparr>"

definition close_ch :: "nav_state \<Rightarrow> panic + nav_state" where
  "close_ch s =
     (if ch s = Closed then Inl (Panic ''close of closed channel'')
      else Inr (s\<lparr>ch := Closed, closes := Suc (closes s)\<rparr>))"

text \<open>
  \<^verbatim>\<open>func(ev interface{}) { if err := options.wait(ctx, ev); err == nil { cancel(); close(ch) } }\<close>
\<close>

definition callback :: "wait_func \<Rightarrow> event \<Rightarrow> nav_state \<Rightarrow> panic + nav_state" where
  "callback w ev s =
     (if w (ctx_state s) ev = None then close_ch (cancel_lctx s) else Inr s)"

text \<open>The callback invoked on each event of a sequence in turn; a panic ends the run.\<close>

fun deliver :: "wait_func \<Rightarrow> event list \<Rightarrow> nav_state \<Rightarrow> panic + nav_state" where
  "deliver w [] s = Inr s"
| "deliver w (ev # evs) s =
     (case callback w ev s of Inl p \<Rightarrow> Inl p | Inr s' \<Rightarrow> deliver w evs s')"

text \<open>\<^verbatim>\<open>lctx\<close> is derived from \<^verbatim>\<open>ctx\<close>: it is done once either is.\<close>

definition lctx_done :: "nav_state \<Rightarrow> bool" where
  "lctx_done s = (lctx_cancelled s \<or> ctx_state s \<noteq> None)"

text \<open>
  Modelled from the spec: \<^verbatim>\<open>ListenTarget\<close>, the event subscription, is not among these
  source files. The spec describes it as the mechanism that, given a cancellable scope
  and a callback, invokes the callback once per event until the scope is cancelled; it
  asks for at-least-once delivery of each event, and that cancelling the scope stops
  further invocations of the callback eventually, not necessarily synchronously.
  \<open>ListenTarget_event\<close> is one delivery reaching a subscription made under \<^verbatim>\<open>lctx\<close>:
  while \<^verbatim>\<open>lctx\<close> is live the callback is invoked; once it is done, the next \<open>late\<close>
  deliveries still invoke it, and none after them. An event that is delivered more than
  once stands more than once in the sequence of deliveries.
\<close>

definition ListenTarget_event :: "wait_func \<Rightarrow> event \<Rightarrow> nav_state \<Rightarrow> panic + nav_state" where
  "ListenTarget_event w ev s =
     (if lctx_done s
      then (case late s of 0 \<Rightarrow> Inr s | Suc l \<Rightarrow> callback w ev (s\<lparr>late := l\<rparr>))
      else callback w ev s)"

fun ListenTarget_events :: "wait_func \<Rightarrow> event list \<Rightarrow> nav_state \<Rightarrow> panic + nav_state" where
  "ListenTarget_events w [] s = Inr s"
| "ListenTarget_events w (ev # evs) s =
     (case ListenTarget_event w ev s of
        Inl p \<Rightarrow> Inl p
      | Inr s' \<Rightarrow> ListenTarget_events w evs s')"


section \<open>\<^verbatim>\<open>waitNavEvent\<close>\<close>

text \<open>
  What happens while \<^verbatim>\<open>waitNavEvent\<close> is blocked in its \<^verbatim>\<open>select\<close>, in the order it
  happens: the target publishes an event, or the caller's scope ends.
\<close>

datatype happening = Publish event | ScopeEnds ctx_error

text \<open>
  The outcome of a call: \<open>returned = Some r\<close> when it returned \<open>r\<close>, \<open>None\<close> when it is
  still blocked after everything that happened; \<open>subscribed\<close> tells whether
  \<^verbatim>\<open>ListenTarget\<close> was called. The last argument of \<open>waitNavEvent\<close> is the \<open>late\<close> of
  the subscription it makes.
\<close>

record nav_outcome =
  returned :: "err option"
  subscribed :: bool

text \<open>
  The \<^verbatim>\<open>select\<close>: \<^verbatim>\<open>case <-ch: return nil\<close>, \<^verbatim>\<open>case <-ctx.Done(): return ctx.Err()\<close>.
  It is looked at after each happening, so the case that becomes ready first is taken.
\<close>

definition nav_ready :: "nav_state \<Rightarrow> err option" where
  "nav_ready s =
     (if ch s = Closed then Some None
      else case ctx_state s of Some c \<Rightarrow> Some (Some (CtxErr c)) | None \<Rightarrow> None)"

fun nav_select :: "wait_func \<Rightarrow> happening list \<Rightarrow> nav_state \<Rightarrow> panic + err option" where
  "nav_select w [] s = Inr (nav_ready s)"
| "nav_select w (h # hs) s =
     (case nav_ready s of
        Some r \<Rightarrow> Inr (Some r)
      | None \<Rightarrow>
         (case h of
            Publish ev \<Rightarrow>
              (case ListenTarget_event w ev s of
                 Inl p \<Rightarrow> Inl p
               | Inr s' \<Rightarrow> nav_select w hs s')
          | ScopeEnds c \<Rightarrow> nav_select w hs (s\<lparr>ctx_state := Some c\<rparr>)))"

definition waitNavEvent ::
  "scope \<Rightarrow> NavigateOption list \<Rightarrow> happening list \<Rightarrow> nat \<Rightarrow> panic + nav_outcome" where
  "waitNavEvent ctx opts hs l =
     (case wait (navOptions_of opts) of
        None \<Rightarrow> Inr \<lparr>returned = Some None, subscribed = False\<rparr>
      | Some w \<Rightarrow>
         (case nav_select w hs (nav_init ctx l) of
            Inl p \<Rightarrow> Inl p
          | Inr r \<Rightarrow> Inr \<lparr>returned = r, subscribed = True\<rparr>))"


text \<open>
  The result as the specification words it, to compare \<open>waitNavEvent\<close> with: success on
  the first event that satisfies the predicate, the scope's error if the scope ends
  before, and no result while neither has happened.
\<close>

fun first_of :: "wait_func \<Rightarrow> happening list \<Rightarrow> err option" where
  "first_of w [] = None"
| "first_of w (Publish ev # hs) = (if w None ev = None then Some None else first_of w hs)"
| "first_of w (ScopeEnds c # hs) = Some (Some (CtxErr c))"


section \<open>\<^verbatim>\<open>WaitUntil\<close> and \<^verbatim>\<open>IntervalRun\<close>\<close>

text \<open>
  The predicate of \<^verbatim>\<open>WaitUntil\<close> and the action of \<^verbatim>\<open>IntervalRun\<close> may have state:
  they are given by the result of each invocation, \<open>f n\<close> for invocation \<open>n\<close> counted
  from 0. The scope is given by what each \<^verbatim>\<open>select\<close> sees: \<open>ctx n = Some e\<close> when the
  \<^verbatim>\<open>select\<close> of iteration \<open>n\<close> leaves through \<^verbatim>\<open>ctx.Done()\<close> (the scope is done when
  the iteration begins, or ends before the timer fires), \<open>None\<close> when it leaves through
  the timer. Both loops invoke once per iteration, so the iteration number is the number
  of invocations so far.

  A run records the value returned, the number of invocations, the duration of every
  timer created by \<^verbatim>\<open>time.NewTimer\<close> in order (a \<^verbatim>\<open>time.Duration\<close>, in nanoseconds) and
  the number of \<^verbatim>\<open>tm.Stop()\<close> calls. The loops need not return: \<open>None\<close> is a run that
  goes on forever.
\<close>

record run =
  result :: err
  calls :: nat
  armed :: "int list"
  stops :: nat

definition Millisecond :: int where
  "Millisecond = 1000000"

partial_function (option) WaitUntil_loop ::
  "(nat \<Rightarrow> err) \<Rightarrow> (nat \<Rightarrow> scope) \<Rightarrow> nat \<Rightarrow> int list \<Rightarrow> run option" where
  "WaitUntil_loop f ctx n tms =
     (case ctx n of
        Some e \<Rightarrow>
          Some \<lparr>result = Some (CtxErr e), calls = n,
                armed = tms @ [50 * Millisecond], stops = 1\<rparr>
      | None \<Rightarrow>
          (if f n = Some ErrContinueWait
           then WaitUntil_loop f ctx (Suc n) (tms @ [50 * Millisecond])
           else Some \<lparr>result = f n, calls = Suc n,
                      armed = tms @ [50 * Millisecond], stops = 0\<rparr>))"

declare WaitUntil_loop.simps [code]

definition WaitUntil :: "(nat \<Rightarrow> err) \<Rightarrow> (nat \<Rightarrow> scope) \<Rightarrow> run option" where
  "WaitUntil f ctx = WaitUntil_loop f ctx 0 []"

partial_function (option) IntervalRun_loop ::
  "int \<Rightarrow> (nat \<Rightarrow> err) \<Rightarrow> (nat \<Rightarrow> scope) \<Rightarrow> nat \<Rightarrow> int list \<Rightarrow> run option" where
  "IntervalRun_loop interval action ctx n tms =
     (case ctx n of
        Some e \<Rightarrow> Some \<lparr>result = Some (CtxErr e), calls = n, armed = tms, stops = 1\<rparr>
      | None \<Rightarrow>
          (case action n of
             Some e \<Rightarrow> Some \<lparr>result = Some e, calls = Suc n, armed = tms, stops = 0\<rparr>
           | None \<Rightarrow> IntervalRun_loop interval action ctx (Suc n) (tms @ [interval])))"

declare IntervalRun_loop.simps [code]

definition IntervalRun :: "int \<Rightarrow> (nat \<Rightarrow> err) \<Rightarrow> (nat \<Rightarrow> scope) \<Rightarrow> run option" where
  "IntervalRun interval action ctx = IntervalRun_loop interval action ctx 0 [interval]"


section \<open>\<^verbatim>\<open>WaitOneOf\<close>\<close>

text \<open>
  An action under race is given by when its \<^verbatim>\<open>Do\<close> returns and what: \<open>a c = Some e\<close>
  when, the derived scope being in state \<open>c\<close>, the call returns \<open>e\<close>; \<open>None\<close> while it is
  still running. \<open>\<lambda>c. Some None\<close> succeeds at once, \<open>\<lambda>c. map_option (Some \<circ> CtxErr) c\<close>
  blocks until it is cancelled, \<open>\<lambda>c. None\<close> never returns.
\<close>

type_synonym action = "scope \<Rightarrow> err option"

text \<open>
  The constructor: the panic on an empty list, or the closure, kept as the two variables
  it captures.
\<close>

record race_action =
  waitIdx :: ptr
  actions :: "action list"

definition WaitOneOf :: "ptr \<Rightarrow> action list \<Rightarrow> panic + race_action" where
  "WaitOneOf wi acts =
     (if length acts = 0 then Inl (Panic ''actions cannot be empty'')
      else Inr \<lparr>waitIdx = wi, actions = acts\<rparr>)"

text \<open>
  One goroutine per action: it runs \<^verbatim>\<open>action.Do(ctx)\<close>, then stands in its \<^verbatim>\<open>select\<close>
  with the outcome to send, then has left (\<^verbatim>\<open>wg.Done()\<close> has run).
\<close>

datatype executor = Running | Sending err | Exited

text \<open>
  The coordinator stands in its \<^verbatim>\<open>select\<close>; then it has its return value and the two
  deferred calls ahead (\<^verbatim>\<open>cancel()\<close> first, \<^verbatim>\<open>wg.Wait()\<close> second, the reverse of the
  order they were deferred in); then \<^verbatim>\<open>cancel()\<close> has run and it stands in
  \<^verbatim>\<open>wg.Wait()\<close>; then the call has returned.
\<close>

datatype coordinator = Selecting | Leaving err | Joining err | Returned err

record race =
  executors :: "executor list"
  coord :: coordinator
  parent :: scope
  derived :: scope
  mem :: "nat \<Rightarrow> int"

definition race_init :: "race_action \<Rightarrow> scope \<Rightarrow> (nat \<Rightarrow> int) \<Rightarrow> race" where
  "race_init ra c m =
     \<lparr>executors = replicate (length (actions ra)) Running, coord = Selecting,
      parent = c, derived = c, mem = m\<rparr>"

text \<open>
  The body of \<^verbatim>\<open>case r := <-retC\<close>: the value to return and the memory after it.
\<close>

definition received :: "ptr \<Rightarrow> nat \<Rightarrow> err \<Rightarrow> (nat \<Rightarrow> int) \<Rightarrow> err \<times> (nat \<Rightarrow> int)" where
  "received wi idx e m =
     (if e \<noteq> None then (e, m)
      else case wi of
        Ref a \<Rightarrow> (None, m(a := int idx))
      | NilPtr \<Rightarrow> (None, m))"

text \<open>
  The moves of the race; the scheduler and the world outside choose among those that
  are possible:
  \<^item> \<open>ActionReturns i\<close>: \<^verbatim>\<open>action.Do(ctx)\<close> returns in executor \<open>i\<close>;
  \<^item> \<open>Deliver i\<close>: executor \<open>i\<close> sends on \<^verbatim>\<open>retC\<close> and the coordinator receives
    (the channel is unbuffered: one move of both). It takes place only while the
    derived scope is live: a rendezvous needs one of the two parked in its \<^verbatim>\<open>select\<close>;
    closing \<^verbatim>\<open>ctx.Done()\<close> wakes every parked \<^verbatim>\<open>select\<close> through that case, and a
    \<^verbatim>\<open>select\<close> entered afterwards finds \<^verbatim>\<open>ctx.Done()\<close> ready and nobody parked on
    \<^verbatim>\<open>retC\<close>;
  \<^item> \<open>Abandon i\<close>: executor \<open>i\<close> leaves its \<^verbatim>\<open>select\<close> through \<^verbatim>\<open>ctx.Done()\<close>;
  \<^item> \<open>ParentEnds e\<close>: the caller's scope is cancelled or times out, and with it the
    derived scope if it is still live;
  \<^item> \<open>SelectDone\<close>: the coordinator leaves its \<^verbatim>\<open>select\<close> through \<^verbatim>\<open>ctx.Done()\<close>;
  \<^item> \<open>DeferredCancel\<close>: the deferred \<^verbatim>\<open>cancel()\<close>;
  \<^item> \<open>WaitReturns\<close>: the deferred \<^verbatim>\<open>wg.Wait()\<close> returns, and with it the call.
  \<open>race_step\<close> is \<open>None\<close> for a move that is not possible in the state.
\<close>

datatype move =
    ActionReturns nat
  | Deliver nat
  | Abandon nat
  | ParentEnds ctx_error
  | SelectDone
  | DeferredCancel
  | WaitReturns

fun race_step :: "race_action \<Rightarrow> move \<Rightarrow> race \<Rightarrow> race option" where
  "race_step ra (ActionReturns i) s =
     (if i < length (executors s) \<and> i < length (actions ra) \<and> executors s ! i = Running
      then (case (actions ra ! i) (derived s) of
              Some e \<Rightarrow> Some (s\<lparr>executors := (executors s)[i := Sending e]\<rparr>)
            | None \<Rightarrow> None)
      else None)"
| "race_step ra (Deliver i) s =
     (if i < length (executors s) \<and> coord s = Selecting \<and> derived s = None
      then (case executors s ! i of
              Sending e \<Rightarrow>
                (case received (waitIdx ra) i e (mem s) of
                   (r, m) \<Rightarrow>
                     Some (s\<lparr>executors := (executors s)[i := Exited],
                             coord := Leaving r, mem := m\<rparr>))
            | _ \<Rightarrow> None)
      else None)"
| "race_step ra (Abandon i) s =
     (if i < length (executors s) \<and> derived s \<noteq> None
      then (case executors s ! i of
              Sending e \<Rightarrow> Some (s\<lparr>executors := (executors s)[i := Exited]\<rparr>)
            | _ \<Rightarrow> None)
      else None)"
| "race_step ra (ParentEnds e) s =
     (if parent s = None
      then Some (s\<lparr>parent := Some e,
                   derived := (if derived s = None then Some e else derived s)\<rparr>)
      else None)"
| "race_step ra SelectDone s =
     (if coord s = Selecting
      then (case derived s of
              Some e \<Rightarrow> Some (s\<lparr>coord := Leaving (Some (CtxErr e))\<rparr>)
            | None \<Rightarrow> None)
      else None)"
| "race_step ra DeferredCancel s =
     (case coord s of
        Leaving r \<Rightarrow>
          Some (s\<lparr>coord := Joining r,
                  derived := (if derived s = None then Some Canceled else derived s)\<rparr>)
      | _ \<Rightarrow> None)"
| "race_step ra WaitReturns s =
     (case coord s of
        Joining r \<Rightarrow>
          (if list_all (\<lambda>x. x = Exited) (executors s) then Some (s\<lparr>coord := Returned r\<rparr>)
           else None)
      | _ \<Rightarrow> None)"

text \<open>A schedule is a list of moves; it runs as long as each move is possible.\<close>

fun race_run :: "race_action \<Rightarrow> move list \<Rightarrow> race \<Rightarrow> race option" where
  "race_run ra [] s = Some s"
| "race_run ra (mv # mvs) s =
     (case race_step ra mv s of None \<Rightarrow> None | Some s' \<Rightarrow> race_run ra mvs s')"

text \<open>The value the coordinator returns, once it has left its \<^verbatim>\<open>select\<close>.\<close>

fun outcome :: "coordinator \<Rightarrow> err option" where
  "outcome Selecting = None"
| "outcome (Leaving r) = Some r"
| "outcome (Joining r) = Some r"
| "outcome (Returned r) = Some r"


text \<open>
  What holds in every state a schedule can reach from \<open>race_init ra c m\<close>: there is one
  executor per action; while the coordinator stands in its \<^verbatim>\<open>select\<close> the derived scope
  is done exactly when the caller's is and memory is as it was; once \<^verbatim>\<open>cancel()\<close> has
  run the derived scope is done; the call has returned only with every executor gone;
  and memory differs from the initial one only by the winner's index in the slot, after
  a success.
\<close>

definition race_inv :: "race_action \<Rightarrow> (nat \<Rightarrow> int) \<Rightarrow> race \<Rightarrow> bool" where
  "race_inv ra m s =
     (length (executors s) = length (actions ra) \<and>
      (coord s = Selecting \<longrightarrow> derived s = parent s \<and> mem s = m) \<and>
      (\<forall>r. coord s = Joining r \<or> coord s = Returned r \<longrightarrow> derived s \<noteq> None) \<and>
      (\<forall>r. coord s = Returned r \<longrightarrow> (\<forall>i<length (executors s). executors s ! i = Exited)) \<and>
      (mem s = m \<or>
       (\<exists>a k. waitIdx ra = Ref a \<and> k < length (actions ra) \<and> mem s = m(a := int k) \<and>
          outcome (coord s) = Some None)))"

text \<open>What an executor holds to send is what its own action returned.\<close>

definition sent_inv :: "race_action \<Rightarrow> race \<Rightarrow> bool" where
  "sent_inv ra s =
     (\<forall>i e. i < length (executors s) \<and> executors s ! i = Sending e \<longrightarrow>
        (\<exists>c'. (actions ra ! i) c' = Some e))"


section \<open>Theorems\<close>

subsection \<open>Construction\<close>

text \<open>
  C6. \<^verbatim>\<open>WaitOneOf\<close> with an empty action list panics at construction: no action value
  comes back, so none is executed. With one action or more the construction does not
  panic and returns the closure over the slot and the actions.
\<close>

theorem C6_WaitOneOf_construction:
  "WaitOneOf wi [] = Inl (Panic ''actions cannot be empty'') \<and>
   (acts \<noteq> [] \<longrightarrow> WaitOneOf wi acts = Inr \<lparr>waitIdx = wi, actions = acts\<rparr>)"
  by (simp add: WaitOneOf_def)

theorem C6_WaitOneOf_construction_witness:
  "WaitOneOf NilPtr [] = Inl (Panic ''actions cannot be empty'') \<and>
   WaitOneOf (Ref 0) [\<lambda>c. Some None] = Inr \<lparr>waitIdx = Ref 0, actions = [\<lambda>c. Some None]\<rparr>"
  using C6_WaitOneOf_construction [of NilPtr "[\<lambda>c. Some None]"]
    C6_WaitOneOf_construction [of "Ref 0" "[\<lambda>c. Some None]"]
  by simp

text \<open>
  C9. The constructors with a required output slot panic at construction on a nil
  pointer, before any action exists: \<^verbatim>\<open>NavigationEntries\<close> when either pointer is nil,
  \<^verbatim>\<open>GetCookies\<close>, \<^verbatim>\<open>CaptureScreenshot\<close>, \<^verbatim>\<open>Location\<close> and \<^verbatim>\<open>Title\<close> when their
  pointer is nil. With non-nil slots the guard does not fire: the first three return
  their action, and \<^verbatim>\<open>Location\<close> and \<^verbatim>\<open>Title\<close> return whatever
  \<^verbatim>\<open>EvaluateAsDevTools\<close> returns for their expression and slot.
\<close>

theorem C9_required_slots:
  "NavigationEntries NilPtr entries = Inl (Panic ''currentIndex and entries cannot be nil'') \<and>
   NavigationEntries currentIndex NilPtr = Inl (Panic ''currentIndex and entries cannot be nil'') \<and>
   NavigationEntries (Ref a) (Ref b) = Inr (GetNavigationHistoryInto (Ref a) (Ref b)) \<and>
   GetCookies NilPtr = Inl (Panic ''cookies cannot be nil'') \<and>
   GetCookies (Ref a) = Inr (GetAllCookiesInto (Ref a)) \<and>
   CaptureScreenshot NilPtr = Inl (Panic ''res cannot be nil'') \<and>
   CaptureScreenshot (Ref a) = Inr (CaptureScreenshotInto (Ref a)) \<and>
   Location evaluate NilPtr = Inl (Panic ''urlstr cannot be nil'') \<and>
   Location evaluate (Ref a) = evaluate ''document.location.toString()'' (Ref a) \<and>
   Title evaluate NilPtr = Inl (Panic ''title cannot be nil'') \<and>
   Title evaluate (Ref a) = evaluate ''document.title'' (Ref a)"
  by (simp add: NavigationEntries_def GetCookies_def CaptureScreenshot_def
      Location_def Title_def)

theorem C9_required_slots_witness:
  "NavigationEntries NilPtr (Ref 1) = Inl (Panic ''currentIndex and entries cannot be nil'') \<and>
   NavigationEntries (Ref 0) NilPtr = Inl (Panic ''currentIndex and entries cannot be nil'') \<and>
   NavigationEntries (Ref 0) (Ref 1) = Inr (GetNavigationHistoryInto (Ref 0) (Ref 1)) \<and>
   GetCookies NilPtr = Inl (Panic ''cookies cannot be nil'') \<and>
   CaptureScreenshot NilPtr = Inl (Panic ''res cannot be nil'') \<and>
   Location (\<lambda>expr res. Inr (expr, res)) NilPtr = Inl (Panic ''urlstr cannot be nil'') \<and>
   Title (\<lambda>expr res. Inr (expr, res)) (Ref 0) = Inr (''document.title'', Ref 0)"
  using C9_required_slots [of "Ref 1" "Ref 0" 0 1 "\<lambda>expr res. Inr (expr, res)"]
  by simp

subsection \<open>Options\<close>


lemma navOptions_of_snoc:
  "navOptions_of (opts @ [o']) = o' (navOptions_of opts)"
  by (simp add: navOptions_of_def)

text \<open>
  C10. With no option the predicate of \<^verbatim>\<open>waitNavEvent\<close> is the load-event-fired
  matcher, which returns nil exactly on \<^verbatim>\<open>page.EventLoadEventFired\<close> and
  \<^verbatim>\<open>ErrNotMatch\<close> on every other event. Options are applied in order after this
  default, so the predicate is the one the last option sets, whatever the earlier options
  did; a trailing \<^verbatim>\<open>NavigateNoWait\<close> leaves no predicate.
\<close>

theorem C10_default_and_last_option:
  "wait (navOptions_of []) = Some loadEventFired \<and>
   loadEventFired ctx ev = (if ev = EventLoadEventFired then None else Some ErrNotMatch) \<and>
   wait (navOptions_of (opts @ [NavigateNoWait])) = None \<and>
   wait (navOptions_of (opts @ [NavigateWaitFunc w])) = w \<and>
   wait (navOptions_of (opts @ [NavigateWaitEventLoadEventFired])) = Some loadEventFired \<and>
   wait (navOptions_of (opts @ [NavigateWaitEventFrameNavigated])) = Some frameNavigated \<and>
   waitNavEvent c (opts @ [NavigateNoWait]) hs l =
     Inr \<lparr>returned = Some None, subscribed = False\<rparr>"
proof -
  have "wait (navOptions_of []) = Some loadEventFired"
    by (simp add: navOptions_of_def NavigateWaitEventLoadEventFired_def)
  moreover have "loadEventFired ctx ev =
      (if ev = EventLoadEventFired then None else Some ErrNotMatch)"
    by (cases ev) (simp_all add: loadEventFired_def)
  moreover have nowait: "wait (navOptions_of (opts @ [NavigateNoWait])) = None"
    by (simp add: navOptions_of_snoc NavigateNoWait_def)
  moreover have "wait (navOptions_of (opts @ [NavigateWaitFunc w])) = w"
    by (simp add: navOptions_of_snoc NavigateWaitFunc_def)
  moreover have "wait (navOptions_of (opts @ [NavigateWaitEventLoadEventFired])) =
      Some loadEventFired"
    by (simp add: navOptions_of_snoc NavigateWaitEventLoadEventFired_def)
  moreover have "wait (navOptions_of (opts @ [NavigateWaitEventFrameNavigated])) =
      Some frameNavigated"
    by (simp add: navOptions_of_snoc NavigateWaitEventFrameNavigated_def)
  moreover have "waitNavEvent c (opts @ [NavigateNoWait]) hs l =
      Inr \<lparr>returned = Some None, subscribed = False\<rparr>"
    using nowait by (simp add: waitNavEvent_def)
  ultimately show ?thesis by blast
qed

theorem C10_default_and_last_option_witness:
  "wait (navOptions_of []) = Some loadEventFired \<and>
   loadEventFired None EventLoadEventFired = None \<and>
   loadEventFired None EventFrameNavigated = Some ErrNotMatch \<and>
   wait (navOptions_of ([NavigateWaitEventFrameNavigated] @ [NavigateNoWait])) = None \<and>
   waitNavEvent None ([NavigateWaitEventFrameNavigated] @ [NavigateNoWait])
     [Publish EventFrameNavigated] 1 = Inr \<lparr>returned = Some None, subscribed = False\<rparr>"
  using C10_default_and_last_option [of None EventLoadEventFired
      "[NavigateWaitEventFrameNavigated]" "Some frameNavigated" None
      "[Publish EventFrameNavigated]" 1]
    C10_default_and_last_option [of None EventFrameNavigated
      "[NavigateWaitEventFrameNavigated]" "Some frameNavigated" None
      "[Publish EventFrameNavigated]" 1]
  by simp

subsection \<open>The polling loop and the periodic loop\<close>

lemma WaitUntil_loop_skip:
  "(\<And>i. i < C \<Longrightarrow> f (n + i) = Some ErrContinueWait \<and> ctx (n + i) = None) \<Longrightarrow>
   WaitUntil_loop f ctx n tms =
   WaitUntil_loop f ctx (n + C) (tms @ replicate C (50 * Millisecond))"
proof (induction C arbitrary: n tms)
  case 0
  then show ?case by simp
next
  case (Suc C)
  have h0: "f n = Some ErrContinueWait" "ctx n = None"
    using Suc.prems [of 0] by simp_all
  have step: "WaitUntil_loop f ctx n tms =
      WaitUntil_loop f ctx (Suc n) (tms @ [50 * Millisecond])"
    by (subst WaitUntil_loop.simps) (simp add: h0)
  have "\<And>i. i < C \<Longrightarrow> f (Suc n + i) = Some ErrContinueWait \<and> ctx (Suc n + i) = None"
    using Suc.prems [of "Suc _"] by simp
  from Suc.IH [OF this]
  show ?case by (simp add: step replicate_append_same)
qed

lemma WaitUntil_loop_result:
  assumes "WaitUntil_loop f ctx n tms = Some rn"
  shows "result rn \<noteq> Some ErrContinueWait"
proof (rule WaitUntil_loop.raw_induct
    [where P = "\<lambda>f ctx n tms rn. result rn \<noteq> Some ErrContinueWait", OF _ assms])
  fix loop :: "(nat \<Rightarrow> err) \<Rightarrow> (nat \<Rightarrow> scope) \<Rightarrow> nat \<Rightarrow> int list \<Rightarrow> run option"
    and f ctx n tms rn
  assume IH: "\<And>f ctx n tms rn. loop f ctx n tms = Some rn \<Longrightarrow> result rn \<noteq> Some ErrContinueWait"
    and body: "(case ctx n of
        None \<Rightarrow>
          if f n = Some ErrContinueWait
          then loop f ctx (Suc n) (tms @ [50 * Millisecond])
          else Some \<lparr>result = f n, calls = Suc n, armed = tms @ [50 * Millisecond], stops = 0\<rparr>
      | Some e \<Rightarrow>
          Some \<lparr>result = Some (CtxErr e), calls = n, armed = tms @ [50 * Millisecond], stops = 1\<rparr>)
      = Some rn"
  show "result rn \<noteq> Some ErrContinueWait"
  proof (cases "ctx n")
    case (Some e)
    with body show ?thesis by auto
  next
    case None
    show ?thesis
    proof (cases "f n = Some ErrContinueWait")
      case True
      with None body have "loop f ctx (Suc n) (tms @ [50 * Millisecond]) = Some rn" by simp
      then show ?thesis by (rule IH)
    next
      case False
      with None body show ?thesis by auto
    qed
  qed
qed

lemma IntervalRun_loop_result:
  assumes "IntervalRun_loop interval action ctx n tms = Some rn"
  shows "result rn \<noteq> None"
proof (rule IntervalRun_loop.raw_induct
    [where P = "\<lambda>interval action ctx n tms rn. result rn \<noteq> None", OF _ assms])
  fix loop :: "int \<Rightarrow> (nat \<Rightarrow> err) \<Rightarrow> (nat \<Rightarrow> scope) \<Rightarrow> nat \<Rightarrow> int list \<Rightarrow> run option"
    and interval action ctx n tms rn
  assume IH: "\<And>interval action ctx n tms rn.
      loop interval action ctx n tms = Some rn \<Longrightarrow> result rn \<noteq> None"
    and body: "(case ctx n of
        None \<Rightarrow>
          (case action n of
             None \<Rightarrow> loop interval action ctx (Suc n) (tms @ [interval])
           | Some e \<Rightarrow> Some \<lparr>result = Some e, calls = Suc n, armed = tms, stops = 0\<rparr>)
      | Some e \<Rightarrow> Some \<lparr>result = Some (CtxErr e), calls = n, armed = tms, stops = 1\<rparr>)
      = Some rn"
  show "result rn \<noteq> None"
  proof (cases "ctx n")
    case (Some e)
    with body show ?thesis by auto
  next
    case None
    show ?thesis
    proof (cases "action n")
      case (Some e)
      with None body show ?thesis by auto
    next
      case None2: None
      with None body have "loop interval action ctx (Suc n) (tms @ [interval]) = Some rn"
        by simp
      then show ?thesis by (rule IH)
    qed
  qed
qed

lemma IntervalRun_loop_skip:
  "(\<And>i. i < C \<Longrightarrow> action (n + i) = None \<and> ctx (n + i) = None) \<Longrightarrow>
   IntervalRun_loop interval action ctx n tms =
   IntervalRun_loop interval action ctx (n + C) (tms @ replicate C interval)"
proof (induction C arbitrary: n tms)
  case 0
  then show ?case by simp
next
  case (Suc C)
  have h0: "action n = None" "ctx n = None"
    using Suc.prems [of 0] by simp_all
  have step: "IntervalRun_loop interval action ctx n tms =
      IntervalRun_loop interval action ctx (Suc n) (tms @ [interval])"
    by (subst IntervalRun_loop.simps) (simp add: h0)
  have "\<And>i. i < C \<Longrightarrow> action (Suc n + i) = None \<and> ctx (Suc n + i) = None"
    using Suc.prems [of "Suc _"] by simp
  from Suc.IH [OF this]
  show ?case by (simp add: step replicate_append_same)
qed


lemma WaitUntil_returns:
  assumes cont: "\<And>i. i < C \<Longrightarrow> f i = Some ErrContinueWait \<and> ctx i = None"
    and last: "f C \<noteq> Some ErrContinueWait" "ctx C = None"
  shows "WaitUntil f ctx =
    Some \<lparr>result = f C, calls = Suc C, armed = replicate (Suc C) (50 * Millisecond), stops = 0\<rparr>"
proof -
  have "WaitUntil f ctx = WaitUntil_loop f ctx C (replicate C (50 * Millisecond))"
    unfolding WaitUntil_def using WaitUntil_loop_skip [of C f 0 ctx "[]"] cont by simp
  also have "\<dots> = Some \<lparr>result = f C, calls = Suc C,
      armed = replicate C (50 * Millisecond) @ [50 * Millisecond], stops = 0\<rparr>"
    by (subst WaitUntil_loop.simps) (simp add: last)
  finally show ?thesis by (simp add: replicate_append_same)
qed

lemma WaitUntil_cancelled:
  assumes cont: "\<And>i. i < k \<Longrightarrow> f i = Some ErrContinueWait \<and> ctx i = None"
    and fin: "ctx k = Some e"
  shows "WaitUntil f ctx =
    Some \<lparr>result = Some (CtxErr e), calls = k,
          armed = replicate (Suc k) (50 * Millisecond), stops = 1\<rparr>"
proof -
  have "WaitUntil f ctx = WaitUntil_loop f ctx k (replicate k (50 * Millisecond))"
    unfolding WaitUntil_def using WaitUntil_loop_skip [of k f 0 ctx "[]"] cont by simp
  also have "\<dots> = Some \<lparr>result = Some (CtxErr e), calls = k,
      armed = replicate k (50 * Millisecond) @ [50 * Millisecond], stops = 1\<rparr>"
    by (subst WaitUntil_loop.simps) (simp add: fin)
  finally show ?thesis by (simp add: replicate_append_same)
qed

text \<open>Once some \<^verbatim>\<open>select\<close> sees the scope done, the loop returns, whatever the predicate.\<close>

lemma WaitUntil_loop_terminates:
  "ctx (n + d) = Some e \<Longrightarrow>
   \<exists>rn. WaitUntil_loop f ctx n tms = Some rn \<and> calls rn \<le> n + d"
proof (induction d arbitrary: n tms)
  case 0
  then show ?case by (subst WaitUntil_loop.simps) simp
next
  case (Suc d)
  have later: "ctx (Suc n + d) = Some e" using Suc.prems by simp
  show ?case
  proof (cases "ctx n")
    case (Some e')
    then show ?thesis by (subst WaitUntil_loop.simps) simp
  next
    case None
    show ?thesis
    proof (cases "f n = Some ErrContinueWait")
      case True
      from Suc.IH [OF later, of "tms @ [50 * Millisecond]"]
      obtain rn where "WaitUntil_loop f ctx (Suc n) (tms @ [50 * Millisecond]) = Some rn"
        and "calls rn \<le> Suc n + d" by blast
      then show ?thesis using None True by (subst WaitUntil_loop.simps) simp
    next
      case False
      then show ?thesis using None by (subst WaitUntil_loop.simps) simp
    qed
  qed
qed

text \<open>
  C3. If the predicate returns \<^verbatim>\<open>ErrContinueWait\<close> on its first \<open>C\<close> invocations and
  \<open>r\<close>, which is not \<^verbatim>\<open>ErrContinueWait\<close>, on invocation \<open>C + 1\<close>, then on every run in
  which these invocations take place (the \<^verbatim>\<open>select\<close> of each of the first \<open>C + 1\<close>
  iterations leaves through the timer) \<^verbatim>\<open>WaitUntil\<close> invokes the predicate exactly
  \<open>C + 1\<close> times, each after a timer of 50 ms created for it, and returns \<open>r\<close>. And for
  every predicate and every scope, whatever \<^verbatim>\<open>WaitUntil\<close> returns is not
  \<^verbatim>\<open>ErrContinueWait\<close>.
\<close>

theorem C3_WaitUntil_continue_law:
  "((\<forall>i<C. f i = Some ErrContinueWait) \<and> f C = r \<and> r \<noteq> Some ErrContinueWait \<and>
    (\<forall>i\<le>C. ctx i = None) \<longrightarrow>
    WaitUntil f ctx =
      Some \<lparr>result = r, calls = Suc C, armed = replicate (Suc C) (50 * Millisecond), stops = 0\<rparr>) \<and>
   (WaitUntil g ctx' = Some rn \<longrightarrow> result rn \<noteq> Some ErrContinueWait)"
proof (intro conjI impI)
  assume h: "(\<forall>i<C. f i = Some ErrContinueWait) \<and> f C = r \<and> r \<noteq> Some ErrContinueWait \<and>
    (\<forall>i\<le>C. ctx i = None)"
  then have "\<And>i. i < C \<Longrightarrow> f i = Some ErrContinueWait \<and> ctx i = None" by simp
  moreover from h have "f C \<noteq> Some ErrContinueWait" "ctx C = None" by simp_all
  ultimately show "WaitUntil f ctx =
      Some \<lparr>result = r, calls = Suc C, armed = replicate (Suc C) (50 * Millisecond), stops = 0\<rparr>"
    using WaitUntil_returns [of C f ctx] h by simp
next
  assume "WaitUntil g ctx' = Some rn"
  then show "result rn \<noteq> Some ErrContinueWait"
    unfolding WaitUntil_def by (rule WaitUntil_loop_result)
qed

theorem C3_WaitUntil_continue_law_witness:
  "WaitUntil (\<lambda>n. if n < 2 then Some ErrContinueWait else None) (\<lambda>n. None) =
     Some \<lparr>result = None, calls = 3, armed = [50000000, 50000000, 50000000], stops = 0\<rparr> \<and>
   result \<lparr>result = None, calls = 3, armed = [50000000, 50000000, 50000000], stops = 0\<rparr>
     \<noteq> Some ErrContinueWait"
  using C3_WaitUntil_continue_law [of 2 "\<lambda>n. if n < 2 then Some ErrContinueWait else None"
      None "\<lambda>n. None" "\<lambda>n. if n < 2 then Some ErrContinueWait else None" "\<lambda>n. None"
      "\<lparr>result = None, calls = 3, armed = [50000000, 50000000, 50000000], stops = 0\<rparr>"]
  by (simp add: Millisecond_def eval_nat_numeral)

text \<open>
  C7. Cancellation is looked at in every iteration of \<^verbatim>\<open>WaitUntil\<close>, before the
  predicate is invoked: an iteration \<open>n\<close> whose \<^verbatim>\<open>select\<close> sees the scope done returns
  the scope's error with the \<open>n\<close> invocations made so far and no further one. Hence a
  predicate that returns \<^verbatim>\<open>ErrContinueWait\<close> for ever does not keep the loop alive: if
  iteration \<open>k\<close> is the first to see the scope done, the loop returns the scope's error
  after exactly \<open>k\<close> invocations; and for every predicate the loop returns after at most
  \<open>k\<close> invocations.
\<close>

theorem C7_WaitUntil_cancellation:
  "(ctx n = Some e \<longrightarrow>
      WaitUntil_loop f ctx n tms =
        Some \<lparr>result = Some (CtxErr e), calls = n, armed = tms @ [50 * Millisecond], stops = 1\<rparr>) \<and>
   ((\<forall>i<k. ctx i = None) \<and> ctx k = Some e \<longrightarrow>
      WaitUntil (\<lambda>i. Some ErrContinueWait) ctx =
        Some \<lparr>result = Some (CtxErr e), calls = k,
              armed = replicate (Suc k) (50 * Millisecond), stops = 1\<rparr>) \<and>
   (ctx k = Some e \<longrightarrow> (\<exists>rn. WaitUntil f ctx = Some rn \<and> calls rn \<le> k))"
proof (intro conjI impI)
  assume "ctx n = Some e"
  then show "WaitUntil_loop f ctx n tms =
      Some \<lparr>result = Some (CtxErr e), calls = n, armed = tms @ [50 * Millisecond], stops = 1\<rparr>"
    by (subst WaitUntil_loop.simps) simp
next
  assume "(\<forall>i<k. ctx i = None) \<and> ctx k = Some e"
  then show "WaitUntil (\<lambda>i. Some ErrContinueWait) ctx =
      Some \<lparr>result = Some (CtxErr e), calls = k,
            armed = replicate (Suc k) (50 * Millisecond), stops = 1\<rparr>"
    using WaitUntil_cancelled [of k "\<lambda>i. Some ErrContinueWait" ctx e] by simp
next
  assume "ctx k = Some e"
  then show "\<exists>rn. WaitUntil f ctx = Some rn \<and> calls rn \<le> k"
    unfolding WaitUntil_def using WaitUntil_loop_terminates [of ctx 0 k e f "[]"] by simp
qed

theorem C7_WaitUntil_cancellation_witness:
  "WaitUntil_loop (\<lambda>i. Some ErrContinueWait) (\<lambda>i. if i < 2 then None else Some Canceled) 2 [] =
     Some \<lparr>result = Some (CtxErr Canceled), calls = 2, armed = [50000000], stops = 1\<rparr> \<and>
   WaitUntil (\<lambda>i. Some ErrContinueWait) (\<lambda>i. if i < 2 then None else Some Canceled) =
     Some \<lparr>result = Some (CtxErr Canceled), calls = 2,
           armed = [50000000, 50000000, 50000000], stops = 1\<rparr> \<and>
   (\<exists>rn. WaitUntil (\<lambda>i. Some ErrContinueWait) (\<lambda>i. if i < 2 then None else Some Canceled)
      = Some rn \<and> calls rn \<le> 2)"
  using C7_WaitUntil_cancellation [of "\<lambda>i. if i < 2 then None else Some Canceled" 2 Canceled
      "\<lambda>i. Some ErrContinueWait" "[]" 2]
  by (simp add: Millisecond_def eval_nat_numeral)

lemma IntervalRun_fails:
  assumes ok: "\<And>i. i < k \<Longrightarrow> action i = None \<and> ctx i = None"
    and last: "action k = Some e" "ctx k = None"
  shows "IntervalRun interval action ctx =
    Some \<lparr>result = Some e, calls = Suc k, armed = replicate (Suc k) interval, stops = 0\<rparr>"
proof -
  have "IntervalRun interval action ctx =
      IntervalRun_loop interval action ctx k ([interval] @ replicate k interval)"
    unfolding IntervalRun_def using IntervalRun_loop_skip [of k action 0 ctx interval "[interval]"] ok
    by simp
  also have "\<dots> = Some \<lparr>result = Some e, calls = Suc k,
      armed = [interval] @ replicate k interval, stops = 0\<rparr>"
    by (subst IntervalRun_loop.simps) (simp add: last)
  finally show ?thesis by simp
qed

lemma IntervalRun_cancelled:
  assumes ok: "\<And>i. i < k \<Longrightarrow> action i = None \<and> ctx i = None"
    and fin: "ctx k = Some c"
  shows "IntervalRun interval action ctx =
    Some \<lparr>result = Some (CtxErr c), calls = k, armed = replicate (Suc k) interval, stops = 1\<rparr>"
proof -
  have "IntervalRun interval action ctx =
      IntervalRun_loop interval action ctx k ([interval] @ replicate k interval)"
    unfolding IntervalRun_def using IntervalRun_loop_skip [of k action 0 ctx interval "[interval]"] ok
    by simp
  also have "\<dots> = Some \<lparr>result = Some (CtxErr c), calls = k,
      armed = [interval] @ replicate k interval, stops = 1\<rparr>"
    by (subst IntervalRun_loop.simps) (simp add: fin)
  finally show ?thesis by simp
qed

text \<open>
  C4. If the action succeeds on its first \<open>K - 1\<close> invocations and fails with \<open>e\<close> on
  invocation \<open>K\<close>, then on every run in which these invocations take place
  \<^verbatim>\<open>IntervalRun\<close> invokes it exactly \<open>K\<close> times, arms \<open>K\<close> timers of the interval and
  returns \<open>e\<close>. If the action never fails and iteration \<open>k\<close> is the first to see the scope
  done, the loop returns the scope's error. Whatever \<^verbatim>\<open>IntervalRun\<close> returns is not
  nil: an invocation that succeeds leads to the next timer and the next iteration.
\<close>

theorem C4_IntervalRun_law:
  "(0 < K \<and> (\<forall>i. Suc i < K \<longrightarrow> action i = None) \<and> action (K - 1) = Some e \<and>
    (\<forall>i<K. ctx i = None) \<longrightarrow>
    IntervalRun interval action ctx =
      Some \<lparr>result = Some e, calls = K, armed = replicate K interval, stops = 0\<rparr>) \<and>
   ((\<forall>i. action' i = None) \<and> (\<forall>i<k. ctx' i = None) \<and> ctx' k = Some c \<longrightarrow>
    IntervalRun interval action' ctx' =
      Some \<lparr>result = Some (CtxErr c), calls = k, armed = replicate (Suc k) interval, stops = 1\<rparr>) \<and>
   (IntervalRun interval a x = Some rn \<longrightarrow> result rn \<noteq> None) \<and>
   (x n = None \<and> a n = None \<longrightarrow>
    IntervalRun_loop interval a x n tms = IntervalRun_loop interval a x (Suc n) (tms @ [interval]))"
proof (intro conjI impI)
  assume h: "0 < K \<and> (\<forall>i. Suc i < K \<longrightarrow> action i = None) \<and> action (K - 1) = Some e \<and>
    (\<forall>i<K. ctx i = None)"
  then obtain k where K: "K = Suc k" by (cases K) auto
  from h K have "\<And>i. i < k \<Longrightarrow> action i = None \<and> ctx i = None" by simp
  moreover from h K have "action k = Some e" "ctx k = None" by simp_all
  ultimately show "IntervalRun interval action ctx =
      Some \<lparr>result = Some e, calls = K, armed = replicate K interval, stops = 0\<rparr>"
    unfolding K by (rule IntervalRun_fails)
next
  assume h: "(\<forall>i. action' i = None) \<and> (\<forall>i<k. ctx' i = None) \<and> ctx' k = Some c"
  then have "\<And>i. i < k \<Longrightarrow> action' i = None \<and> ctx' i = None" by simp
  moreover from h have "ctx' k = Some c" by simp
  ultimately show "IntervalRun interval action' ctx' =
      Some \<lparr>result = Some (CtxErr c), calls = k, armed = replicate (Suc k) interval, stops = 1\<rparr>"
    by (rule IntervalRun_cancelled)
next
  assume "IntervalRun interval a x = Some rn"
  then show "result rn \<noteq> None"
    unfolding IntervalRun_def by (rule IntervalRun_loop_result)
next
  assume "x n = None \<and> a n = None"
  then show "IntervalRun_loop interval a x n tms =
      IntervalRun_loop interval a x (Suc n) (tms @ [interval])"
    by (subst IntervalRun_loop.simps) simp
qed

theorem C4_IntervalRun_law_witness:
  "IntervalRun 7 (\<lambda>i. if i < 2 then None else Some (Failure ''boom'')) (\<lambda>i. None) =
     Some \<lparr>result = Some (Failure ''boom''), calls = 3, armed = [7, 7, 7], stops = 0\<rparr> \<and>
   IntervalRun 7 (\<lambda>i. None) (\<lambda>i. if i < 2 then None else Some DeadlineExceeded) =
     Some \<lparr>result = Some (CtxErr DeadlineExceeded), calls = 2, armed = [7, 7, 7], stops = 1\<rparr> \<and>
   result \<lparr>result = Some (CtxErr DeadlineExceeded), calls = 2, armed = [7, 7, 7], stops = 1\<rparr>
     \<noteq> None \<and>
   IntervalRun_loop 7 (\<lambda>i. None) (\<lambda>i. if i < 2 then None else Some DeadlineExceeded) 0 [7] =
     IntervalRun_loop 7 (\<lambda>i. None) (\<lambda>i. if i < 2 then None else Some DeadlineExceeded) (Suc 0)
       ([7] @ [7])"
  using C4_IntervalRun_law [of 3 "\<lambda>i. if i < 2 then None else Some (Failure ''boom'')"
      "Failure ''boom''" "\<lambda>i. None" 7 "\<lambda>i. None"
      2 "\<lambda>i. if i < 2 then None else Some DeadlineExceeded" DeadlineExceeded
      "\<lambda>i. None" "\<lambda>i. if i < 2 then None else Some DeadlineExceeded"
      "\<lparr>result = Some (CtxErr DeadlineExceeded), calls = 2, armed = [7, 7, 7], stops = 1\<rparr>"
      0 "[7]"]
  by (simp add: eval_nat_numeral)

subsection \<open>The event wait\<close>

lemma callback_live:
  "ch s = Open \<Longrightarrow>
   callback w ev s =
     Inr (if w (ctx_state s) ev = None
          then s\<lparr>lctx_cancelled := True, ch := Closed, closes := Suc (closes s)\<rparr> else s)"
  by (simp add: callback_def close_ch_def cancel_lctx_def)

lemma ListenTarget_events_done:
  "lctx_done s \<Longrightarrow> late s = 0 \<Longrightarrow> ListenTarget_events w evs s = Inr s"
  by (induction evs) (simp_all add: ListenTarget_event_def)

lemma ListenTarget_events_live:
  "ch s = Open \<Longrightarrow> \<not> lctx_done s \<Longrightarrow> late s = 0 \<Longrightarrow>
   ListenTarget_events w evs s =
     Inr (if \<exists>ev\<in>set evs. w None ev = None
          then s\<lparr>lctx_cancelled := True, ch := Closed, closes := Suc (closes s)\<rparr> else s)"
proof (induction evs)
  case Nil
  then show ?case by simp
next
  case (Cons ev evs)
  from Cons.prems have live: "ctx_state s = None" "\<not> lctx_cancelled s"
    by (simp_all add: lctx_done_def)
  show ?case
  proof (cases "w None ev = None")
    case True
    let ?s' = "s\<lparr>lctx_cancelled := True, ch := Closed, closes := Suc (closes s)\<rparr>"
    have "lctx_done ?s'" "late ?s' = 0" using Cons.prems by (simp_all add: lctx_done_def)
    then have "ListenTarget_events w evs ?s' = Inr ?s'" by (rule ListenTarget_events_done)
    then show ?thesis
      using True Cons.prems live by (simp add: ListenTarget_event_def callback_live)
  next
    case False
    then show ?thesis
      using Cons live by (simp add: ListenTarget_event_def callback_live del: not_None_eq)
  qed
qed

text \<open>
  Delivered to the callback directly, a sequence of events makes it panic exactly when
  two or more of them satisfy the predicate.
\<close>

lemma deliver_closed:
  "ch s = Closed \<Longrightarrow>
   (\<exists>p. deliver w evs s = Inl p) = (\<exists>ev\<in>set evs. w (ctx_state s) ev = None)"
proof (induction evs)
  case Nil
  then show ?case by simp
next
  case (Cons ev evs)
  show ?case
  proof (cases "w (ctx_state s) ev = None")
    case True
    then show ?thesis using Cons.prems
      by (simp add: callback_def close_ch_def cancel_lctx_def)
  next
    case False
    then have "callback w ev s = Inr s" by (simp add: callback_def del: not_None_eq)
    then show ?thesis using False Cons by (simp del: not_None_eq)
  qed
qed

lemma deliver_open:
  "ch s = Open \<Longrightarrow>
   (\<exists>p. deliver w evs s = Inl p) =
   (2 \<le> length (filter (\<lambda>ev. w (ctx_state s) ev = None) evs))"
proof (induction evs)
  case Nil
  then show ?case by simp
next
  case (Cons ev evs)
  show ?case
  proof (cases "w (ctx_state s) ev = None")
    case True
    let ?s' = "s\<lparr>lctx_cancelled := True, ch := Closed, closes := Suc (closes s)\<rparr>"
    have cb: "callback w ev s = Inr ?s'"
      using True Cons.prems by (simp add: callback_def close_ch_def cancel_lctx_def)
    have "(\<exists>p. deliver w evs ?s' = Inl p) = (\<exists>ev\<in>set evs. w (ctx_state ?s') ev = None)"
      by (rule deliver_closed) simp
    also have "\<dots> = (1 \<le> length (filter (\<lambda>ev. w (ctx_state s) ev = None) evs))"
      by (auto simp: Suc_le_eq filter_empty_conv simp del: not_None_eq)
    finally show ?thesis using True cb by simp
  next
    case False
    then have "callback w ev s = Inr s" by (simp add: callback_def del: not_None_eq)
    then show ?thesis using False Cons by (simp del: not_None_eq)
  qed
qed

lemma deliver_closes:
  "deliver w evs s = Inr s' \<Longrightarrow>
   closes s' = closes s + length (filter (\<lambda>ev. w (ctx_state s) ev = None) evs) \<and>
   ctx_state s' = ctx_state s"
proof (induction evs arbitrary: s)
  case Nil
  then show ?case by simp
next
  case (Cons ev evs)
  from Cons.prems obtain s1 where cb: "callback w ev s = Inr s1"
    and rest: "deliver w evs s1 = Inr s'"
    by (auto split: sum.splits)
  from cb have s1: "ctx_state s1 = ctx_state s \<and>
      closes s1 = closes s + (if w (ctx_state s) ev = None then 1 else 0)"
    by (auto simp: callback_def close_ch_def cancel_lctx_def split: if_splits)
  from Cons.IH [OF rest] s1 show ?case by simp
qed

text \<open>
  Under a subscription that stops at once (\<open>late = 0\<close>) the callback is not invoked
  again after its \<^verbatim>\<open>cancel()\<close>: the channel is closed at most once and nothing panics.
\<close>

lemma ListenTarget_prompt_once:
  "\<exists>s. ListenTarget_events w evs (nav_init c 0) = Inr s \<and> closes s \<le> 1 \<and>
      (closes s = 1) = (c = None \<and> (\<exists>ev\<in>set evs. w None ev = None)) \<and>
      (ch s = Closed) = (closes s = 1)"
proof (cases c)
  case None
  then have "ch (nav_init c 0) = Open" "\<not> lctx_done (nav_init c 0)" "late (nav_init c 0) = 0"
    by (simp_all add: nav_init_def lctx_done_def)
  from ListenTarget_events_live [OF this, of w evs]
  show ?thesis using None by (auto simp: nav_init_def)
next
  case (Some e)
  then have "lctx_done (nav_init c 0)" "late (nav_init c 0) = 0"
    by (simp_all add: nav_init_def lctx_done_def)
  from ListenTarget_events_done [OF this, of w evs]
  show ?thesis using Some by (simp add: nav_init_def)
qed

text \<open>
  Under a subscription that stops one delivery or more after the cancellation, as the
  spec allows, two events in a row that satisfy the predicate both reach the callback,
  for every predicate: the second invocation closes the closed channel.
\<close>

lemma ListenTarget_late_double_close:
  assumes "w None ev1 = None" "w None ev2 = None"
  shows "ListenTarget_events w (ev1 # ev2 # evs) (nav_init None (Suc l)) =
    Inl (Panic ''close of closed channel'')"
  using assms
  by (simp add: ListenTarget_event_def lctx_done_def nav_init_def callback_def close_ch_def
      cancel_lctx_def)

text \<open>
  C1. The callback that \<^verbatim>\<open>waitNavEvent\<close> registers is to signal completion at most
  once over every sequence of events delivered to it, and processing later events that
  satisfy the predicate is never to fault. The code does not do so: the callback runs
  \<^verbatim>\<open>cancel()\<close> and \<^verbatim>\<open>close(ch)\<close> on every event that satisfies the predicate, with no
  guard of its own. With the default predicate and two load events in a row, the second
  reaching the callback before the subscription has stopped (or delivered to the
  callback directly), the second invocation closes the closed channel, which panics.
\<close>

theorem C1_double_close:
  "loadEventFired None EventLoadEventFired = None \<and>
   ListenTarget_events loadEventFired [EventLoadEventFired, EventLoadEventFired]
     (nav_init None 1) = Inl (Panic ''close of closed channel'') \<and>
   deliver loadEventFired [EventLoadEventFired, EventLoadEventFired] (nav_init None 0) =
     Inl (Panic ''close of closed channel'')"
  by (simp add: loadEventFired_def ListenTarget_event_def lctx_done_def nav_init_def
      callback_def close_ch_def cancel_lctx_def)

lemma nav_select_ready:
  "nav_ready s = Some r \<Longrightarrow> nav_select w hs s = Inr (Some r)"
  by (cases hs) simp_all

lemma nav_select_live:
  "ch s = Open \<Longrightarrow> ctx_state s = None \<Longrightarrow> \<not> lctx_cancelled s \<Longrightarrow>
   nav_select w hs s = Inr (first_of w hs)"
proof (induction hs arbitrary: s)
  case Nil
  then show ?case by (simp add: nav_ready_def)
next
  case (Cons h hs)
  from Cons.prems have nr: "nav_ready s = None" by (simp add: nav_ready_def)
  from Cons.prems have nd: "\<not> lctx_done s" by (simp add: lctx_done_def)
  show ?case
  proof (cases h)
    case (Publish ev)
    show ?thesis
    proof (cases "w None ev = None")
      case True
      let ?s' = "s\<lparr>lctx_cancelled := True, ch := Closed, closes := Suc (closes s)\<rparr>"
      have "nav_ready ?s' = Some None" by (simp add: nav_ready_def)
      then have "nav_select w hs ?s' = Inr (Some None)" by (rule nav_select_ready)
      then show ?thesis
        using True Publish nr nd Cons.prems by (simp add: ListenTarget_event_def callback_live)
    next
      case False
      then show ?thesis
        using Publish nr nd Cons
        by (simp add: ListenTarget_event_def callback_live del: not_None_eq)
    qed
  next
    case (ScopeEnds c)
    let ?s' = "s\<lparr>ctx_state := Some c\<rparr>"
    have "nav_ready ?s' = Some (Some (CtxErr c))"
      using Cons.prems by (simp add: nav_ready_def)
    then have "nav_select w hs ?s' = Inr (Some (Some (CtxErr c)))" by (rule nav_select_ready)
    then show ?thesis using ScopeEnds nr by simp
  qed
qed

lemma first_of_cases:
  "first_of w hs = None \<or> first_of w hs = Some None \<or>
   (\<exists>c. first_of w hs = Some (Some (CtxErr c)))"
  by (induction w hs rule: first_of.induct) auto

lemma waitNavEvent_eq:
  "waitNavEvent ctx opts hs l =
     Inr (case wait (navOptions_of opts) of
            None \<Rightarrow> \<lparr>returned = Some None, subscribed = False\<rparr>
          | Some w \<Rightarrow>
              \<lparr>returned = (case ctx of Some c \<Rightarrow> Some (Some (CtxErr c)) | None \<Rightarrow> first_of w hs),
               subscribed = True\<rparr>)"
proof (cases "wait (navOptions_of opts)")
  case None
  then show ?thesis by (simp add: waitNavEvent_def)
next
  case (Some w)
  show ?thesis
  proof (cases ctx)
    case None
    have "nav_select w hs (nav_init None l) = Inr (first_of w hs)"
      by (rule nav_select_live) (simp_all add: nav_init_def)
    then show ?thesis using Some None by (simp add: waitNavEvent_def)
  next
    case (Some c)
    have "nav_ready (nav_init (Some c) l) = Some (Some (CtxErr c))"
      by (simp add: nav_ready_def nav_init_def)
    then have "nav_select w hs (nav_init (Some c) l) = Inr (Some (Some (CtxErr c)))"
      by (rule nav_select_ready)
    then show ?thesis using Some \<open>wait (navOptions_of opts) = Some w\<close>
      by (simp add: waitNavEvent_def)
  qed
qed

text \<open>
  C5. For every option list, every state of the scope at the call and everything that
  happens afterwards, \<^verbatim>\<open>waitNavEvent\<close> does not panic and:
  \<^item> with no predicate left by the options (\<^verbatim>\<open>NavigateNoWait\<close>) it returns nil at once
    and \<^verbatim>\<open>ListenTarget\<close> is not called;
  \<^item> with a predicate it subscribes, and returns nil on the first event that satisfies
    the predicate, the scope's error when the scope ends first, and stays blocked while
    neither has happened;
  \<^item> so what it returns is nil or the scope's error, never \<^verbatim>\<open>ErrNotMatch\<close>.
\<close>

theorem C5_waitNavEvent_results:
  "\<exists>out. waitNavEvent ctx opts hs l = Inr out \<and>
     (wait (navOptions_of opts) = None \<longrightarrow> out = \<lparr>returned = Some None, subscribed = False\<rparr>) \<and>
     (\<forall>w. wait (navOptions_of opts) = Some w \<longrightarrow>
        subscribed out \<and>
        returned out = (case ctx of Some c \<Rightarrow> Some (Some (CtxErr c)) | None \<Rightarrow> first_of w hs)) \<and>
     (returned out = None \<or> returned out = Some None \<or>
      (\<exists>c. returned out = Some (Some (CtxErr c)))) \<and>
     returned out \<noteq> Some (Some ErrNotMatch)"
proof -
  have cases3: "\<And>w. first_of w hs = None \<or> first_of w hs = Some None \<or>
      (\<exists>c. first_of w hs = Some (Some (CtxErr c)))"
    by (rule first_of_cases)
  show ?thesis
  proof (cases "wait (navOptions_of opts)")
    case None
    then show ?thesis by (simp add: waitNavEvent_eq)
  next
    case (Some w)
    show ?thesis
    proof (cases ctx)
      case None
      then show ?thesis using Some cases3 [of w] by (auto simp: waitNavEvent_eq)
    next
      case (Some c)
      then show ?thesis using \<open>wait (navOptions_of opts) = Some w\<close>
        by (simp add: waitNavEvent_eq)
    qed
  qed
qed

theorem C5_waitNavEvent_results_witness:
  "waitNavEvent None []
     [Publish EventFrameNavigated, Publish EventLoadEventFired, ScopeEnds Canceled] 1 =
     Inr \<lparr>returned = Some None, subscribed = True\<rparr> \<and>
   waitNavEvent None [NavigateWaitEventFrameNavigated]
     [Publish EventLoadEventFired, ScopeEnds DeadlineExceeded, Publish EventFrameNavigated] 1 =
     Inr \<lparr>returned = Some (Some (CtxErr DeadlineExceeded)), subscribed = True\<rparr> \<and>
   waitNavEvent None [NavigateNoWait] [Publish EventLoadEventFired] 1 =
     Inr \<lparr>returned = Some None, subscribed = False\<rparr>"
  using C5_waitNavEvent_results [of None "[]"
      "[Publish EventFrameNavigated, Publish EventLoadEventFired, ScopeEnds Canceled]" 1]
    C5_waitNavEvent_results [of None "[NavigateWaitEventFrameNavigated]"
      "[Publish EventLoadEventFired, ScopeEnds DeadlineExceeded, Publish EventFrameNavigated]" 1]
    C5_waitNavEvent_results [of None "[NavigateNoWait]" "[Publish EventLoadEventFired]" 1]
  by (auto simp: navOptions_of_def NavigateWaitEventLoadEventFired_def NavigateNoWait_def
      NavigateWaitEventFrameNavigated_def loadEventFired_def frameNavigated_def)

subsection \<open>The race\<close>

lemma race_inv_init:
  "race_inv ra m (race_init ra c m)"
  by (simp add: race_inv_def race_init_def)

lemma race_inv_step:
  assumes "race_inv ra m s" "race_step ra mv s = Some s'"
  shows "race_inv ra m s'"
proof (cases mv)
  case (ActionReturns i)
  then show ?thesis using assms
    by (auto simp: race_inv_def split: if_splits option.splits)
next
  case (Deliver i)
  then show ?thesis using assms
    by (auto simp: race_inv_def received_def split: if_splits executor.splits ptr.splits)
next
  case (Abandon i)
  then show ?thesis using assms
    by (auto simp: race_inv_def nth_list_update split: if_splits executor.splits)
next
  case (ParentEnds e)
  then show ?thesis using assms
    by (auto simp: race_inv_def split: if_splits)
next
  case SelectDone
  then show ?thesis using assms
    by (auto simp: race_inv_def split: if_splits option.splits)
next
  case DeferredCancel
  then show ?thesis using assms
    by (auto simp: race_inv_def split: if_splits coordinator.splits)
next
  case WaitReturns
  then show ?thesis using assms
    by (auto simp: race_inv_def list_all_length split: if_splits coordinator.splits)
qed

lemma race_inv_run:
  "race_inv ra m s \<Longrightarrow> race_run ra mvs s = Some s' \<Longrightarrow> race_inv ra m s'"
proof (induction mvs arbitrary: s)
  case Nil
  then show ?case by simp
next
  case (Cons mv mvs)
  then show ?case by (auto split: option.splits dest: race_inv_step)
qed

lemma sent_inv_init:
  "sent_inv ra (race_init ra c m)"
  by (auto simp: sent_inv_def race_init_def)

lemma sent_inv_step:
  assumes "sent_inv ra s" "race_step ra mv s = Some s'"
  shows "sent_inv ra s'"
proof (cases mv)
  case (ActionReturns i)
  with assms(2) obtain e where e: "(actions ra ! i) (derived s) = Some e"
    and s': "s' = s\<lparr>executors := (executors s)[i := Sending e]\<rparr>" and i: "i < length (executors s)"
    by (auto split: if_splits option.splits)
  show ?thesis unfolding sent_inv_def
  proof (intro allI impI)
    fix j x
    assume h: "j < length (executors s') \<and> executors s' ! j = Sending x"
    show "\<exists>c'. (actions ra ! j) c' = Some x"
    proof (cases "j = i")
      case True
      with h s' i e have "x = e" by simp
      with e True show ?thesis by blast
    next
      case False
      with h s' have "j < length (executors s) \<and> executors s ! j = Sending x" by simp
      with assms(1) show ?thesis unfolding sent_inv_def by blast
    qed
  qed
next
  case (Deliver i)
  then show ?thesis using assms
    by (auto simp: sent_inv_def nth_list_update split: if_splits executor.splits prod.splits)
next
  case (Abandon i)
  then show ?thesis using assms
    by (auto simp: sent_inv_def nth_list_update split: if_splits executor.splits)
next
  case (ParentEnds e)
  then show ?thesis using assms by (auto simp: sent_inv_def split: if_splits)
next
  case SelectDone
  then show ?thesis using assms by (auto simp: sent_inv_def split: if_splits option.splits)
next
  case DeferredCancel
  then show ?thesis using assms by (auto simp: sent_inv_def split: coordinator.splits)
next
  case WaitReturns
  then show ?thesis using assms by (auto simp: sent_inv_def split: if_splits coordinator.splits)
qed

lemma sent_inv_run:
  "sent_inv ra s \<Longrightarrow> race_run ra mvs s = Some s' \<Longrightarrow> sent_inv ra s'"
proof (induction mvs arbitrary: s)
  case Nil
  then show ?case by simp
next
  case (Cons mv mvs)
  then show ?case by (auto split: option.splits dest: sent_inv_step)
qed

text \<open>Once the coordinator has its return value, no move changes it or the memory.\<close>

lemma outcome_step:
  assumes "race_step ra mv s = Some s'" "outcome (coord s) = Some r"
  shows "outcome (coord s') = Some r \<and> mem s' = mem s"
proof (cases mv)
  case (ActionReturns i)
  then show ?thesis using assms by (auto split: if_splits option.splits)
next
  case (Deliver i)
  then show ?thesis using assms by (auto split: if_splits)
next
  case (Abandon i)
  then show ?thesis using assms by (auto split: if_splits executor.splits)
next
  case (ParentEnds e)
  then show ?thesis using assms by (auto split: if_splits)
next
  case SelectDone
  then show ?thesis using assms by (auto split: if_splits)
next
  case DeferredCancel
  then show ?thesis using assms by (auto split: coordinator.splits)
next
  case WaitReturns
  then show ?thesis using assms by (auto split: if_splits coordinator.splits)
qed

lemma outcome_run:
  "race_run ra mvs s = Some s' \<Longrightarrow> outcome (coord s) = Some r \<Longrightarrow>
   outcome (coord s') = Some r \<and> mem s' = mem s"
proof (induction mvs arbitrary: s)
  case Nil
  then show ?case by simp
next
  case (Cons mv mvs)
  then show ?case by (auto split: option.splits dest: outcome_step)
qed

lemma race_run_append:
  "race_run ra (xs @ ys) s =
     (case race_run ra xs s of None \<Rightarrow> None | Some s' \<Rightarrow> race_run ra ys s')"
  by (induction xs arbitrary: s) (auto split: option.splits)

lemma select_move_enabled:
  "race_step ra mv s = Some s' \<Longrightarrow> mv = SelectDone \<or> mv = Deliver j \<Longrightarrow> coord s = Selecting"
  by (auto split: if_splits)

lemma no_select_after:
  "race_run ra mvs s = Some s' \<Longrightarrow> outcome (coord s) = Some r \<Longrightarrow>
   SelectDone \<notin> set mvs \<and> (\<forall>j. Deliver j \<notin> set mvs)"
proof (induction mvs arbitrary: s)
  case Nil
  then show ?case by simp
next
  case (Cons mv mvs)
  from Cons.prems obtain s1 where st: "race_step ra mv s = Some s1"
    and rest: "race_run ra mvs s1 = Some s'"
    by (auto split: option.splits)
  from Cons.prems(2) have sel: "coord s \<noteq> Selecting" by auto
  from st sel have mv: "mv \<noteq> SelectDone \<and> (\<forall>j. mv \<noteq> Deliver j)"
    using select_move_enabled by blast
  from outcome_step [OF st Cons.prems(2)] have "outcome (coord s1) = Some r" by simp
  from Cons.IH [OF rest this] mv show ?case by auto
qed

lemma no_select_before:
  "race_run ra mvs s = Some s' \<Longrightarrow> coord s' = Selecting \<Longrightarrow>
   SelectDone \<notin> set mvs \<and> (\<forall>j. Deliver j \<notin> set mvs)"
proof (induction mvs arbitrary: s)
  case Nil
  then show ?case by simp
next
  case (Cons mv mvs)
  from Cons.prems obtain s1 where st: "race_step ra mv s = Some s1"
    and rest: "race_run ra mvs s1 = Some s'"
    by (auto split: option.splits)
  have "mv \<noteq> SelectDone \<and> (\<forall>j. mv \<noteq> Deliver j)"
  proof (rule ccontr)
    assume "\<not> ?thesis"
    then have "\<exists>r. outcome (coord s1) = Some r"
      using st by (auto split: if_splits option.splits executor.splits prod.splits)
    then obtain r where "outcome (coord s1) = Some r" ..
    from outcome_run [OF rest this] Cons.prems(2) show False by simp
  qed
  with Cons.IH [OF rest Cons.prems(2)] show ?case by auto
qed

lemma left_select_by:
  "race_run ra mvs s = Some s' \<Longrightarrow> coord s = Selecting \<Longrightarrow> outcome (coord s') = Some r \<Longrightarrow>
   \<exists>pre post. (\<exists>k. mvs = pre @ Deliver k # post) \<or> mvs = pre @ SelectDone # post"
proof (induction mvs arbitrary: s)
  case Nil
  then show ?case by simp
next
  case (Cons mv mvs)
  from Cons.prems obtain s1 where st: "race_step ra mv s = Some s1"
    and rest: "race_run ra mvs s1 = Some s'"
    by (auto split: option.splits)
  show ?case
  proof (cases "mv = SelectDone \<or> (\<exists>k. mv = Deliver k)")
    case True
    then have "(\<exists>k. mv # mvs = [] @ Deliver k # mvs) \<or> mv # mvs = [] @ SelectDone # mvs"
      by auto
    then show ?thesis by blast
  next
    case False
    then have "coord s1 = Selecting"
      using st Cons.prems(2) by (cases mv) (auto split: if_splits option.splits executor.splits)
    from Cons.IH [OF rest this Cons.prems(3)]
    obtain pre post where "(\<exists>k. mvs = pre @ Deliver k # post) \<or> mvs = pre @ SelectDone # post"
      by blast
    then have "(\<exists>k. mv # mvs = (mv # pre) @ Deliver k # post) \<or>
        mv # mvs = (mv # pre) @ SelectDone # post"
      by auto
    then show ?thesis by blast
  qed
qed

lemma deliver_result:
  assumes pre: "race_run ra pre (race_init ra c m) = Some s1"
    and run: "race_run ra (Deliver k # post) s1 = Some s"
  shows "\<exists>e. coord s1 = Selecting \<and> k < length (actions ra) \<and> executors s1 ! k = Sending e \<and>
     (\<exists>c'. (actions ra ! k) c' = Some e) \<and> outcome (coord s) = Some e \<and>
     mem s = (if e = None then (case waitIdx ra of Ref a \<Rightarrow> m(a := int k) | NilPtr \<Rightarrow> m) else m)"
proof -
  from run obtain s2 where st: "race_step ra (Deliver k) s1 = Some s2"
    and rest: "race_run ra post s2 = Some s"
    by (auto split: option.splits)
  have inv: "race_inv ra m s1" using race_inv_run [OF race_inv_init pre] .
  from st have sel: "coord s1 = Selecting" and k: "k < length (executors s1)"
    and live: "derived s1 = None"
    by (auto split: if_splits)
  from st sel k live obtain e where e: "executors s1 ! k = Sending e"
    by (cases "executors s1 ! k") auto
  from inv sel have m1: "mem s1 = m" and len: "length (executors s1) = length (actions ra)"
    by (simp_all add: race_inv_def)
  from sent_inv_run [OF sent_inv_init pre] k e have src: "\<exists>c'. (actions ra ! k) c' = Some e"
    unfolding sent_inv_def by blast
  from st sel k live e m1 have s2: "outcome (coord s2) = Some e \<and>
      mem s2 = (if e = None then (case waitIdx ra of Ref a \<Rightarrow> m(a := int k) | NilPtr \<Rightarrow> m) else m)"
    by (auto simp: received_def split: ptr.splits)
  from outcome_run [OF rest] s2 have "outcome (coord s) = Some e \<and> mem s = mem s2" by simp
  with s2 sel k len e src show ?thesis by auto
qed

lemma select_done_result:
  assumes pre: "race_run ra pre (race_init ra c m) = Some s1"
    and run: "race_run ra (SelectDone # post) s1 = Some s"
  shows "\<exists>e. coord s1 = Selecting \<and> parent s1 = Some e \<and>
     outcome (coord s) = Some (Some (CtxErr e)) \<and> mem s = m"
proof -
  from run obtain s2 where st: "race_step ra SelectDone s1 = Some s2"
    and rest: "race_run ra post s2 = Some s"
    by (auto split: option.splits)
  have inv: "race_inv ra m s1" using race_inv_run [OF race_inv_init pre] .
  from st have sel: "coord s1 = Selecting" by (auto split: if_splits)
  from inv sel have m1: "mem s1 = m" and dp: "derived s1 = parent s1"
    by (simp_all add: race_inv_def)
  from st sel obtain e where e: "derived s1 = Some e"
    and s2: "outcome (coord s2) = Some (Some (CtxErr e))" "mem s2 = mem s1"
    by (auto split: option.splits)
  from outcome_run [OF rest s2(1)] have "outcome (coord s) = Some (Some (CtxErr e)) \<and> mem s = mem s2" .
  with s2 m1 sel e dp show ?thesis by auto
qed

text \<open>
  An executor that stands in its \<^verbatim>\<open>select\<close> can always get out of it: by the
  rendezvous while the coordinator stands in its own \<^verbatim>\<open>select\<close>, through
  \<^verbatim>\<open>ctx.Done()\<close> once the deferred \<^verbatim>\<open>cancel()\<close> has run, and that call is the very
  next step of a coordinator that has left its \<^verbatim>\<open>select\<close>.
\<close>

lemma sender_leaves:
  assumes inv: "race_inv ra m s" and i: "i < length (actions ra)"
    and snd: "executors s ! i = Sending e"
  shows "(\<exists>s'. race_run ra [Deliver i] s = Some s' \<and> executors s' ! i = Exited) \<or>
         (\<exists>s'. race_run ra [Abandon i] s = Some s' \<and> executors s' ! i = Exited) \<or>
         (\<exists>s'. race_run ra [DeferredCancel, Abandon i] s = Some s' \<and> executors s' ! i = Exited)"
proof -
  from inv i have len: "i < length (executors s)" by (simp add: race_inv_def)
  show ?thesis
  proof (cases "coord s")
    case Selecting
    show ?thesis
    proof (cases "derived s")
      case None
      then have "\<exists>s'. race_run ra [Deliver i] s = Some s' \<and> executors s' ! i = Exited"
        using Selecting len snd by (simp split: prod.splits)
      then show ?thesis by blast
    next
      case (Some x)
      then have "\<exists>s'. race_run ra [Abandon i] s = Some s' \<and> executors s' ! i = Exited"
        using len snd by simp
      then show ?thesis by blast
    qed
  next
    case (Leaving r)
    then have "\<exists>s'. race_run ra [DeferredCancel, Abandon i] s = Some s' \<and> executors s' ! i = Exited"
      using len snd by simp
    then show ?thesis by blast
  next
    case (Joining r)
    with inv have "derived s \<noteq> None" by (simp add: race_inv_def)
    then have "\<exists>s'. race_run ra [Abandon i] s = Some s' \<and> executors s' ! i = Exited"
      using len snd by auto
    then show ?thesis by blast
  next
    case (Returned r)
    with inv have "derived s \<noteq> None" by (simp add: race_inv_def)
    then have "\<exists>s'. race_run ra [Abandon i] s = Some s' \<and> executors s' ! i = Exited"
      using len snd by auto
    then show ?thesis by blast
  qed
qed

text \<open>It leaves its \<^verbatim>\<open>select\<close> by one of its two cases only, and then it is gone.\<close>

lemma sender_exit:
  assumes "race_step ra mv s = Some s'" "i < length (executors s)"
    "executors s ! i = Sending e"
  shows "executors s' ! i = Sending e \<or>
     executors s' ! i = Exited \<and> (mv = Deliver i \<or> mv = Abandon i \<and> derived s \<noteq> None)"
proof (cases mv)
  case (ActionReturns j)
  then show ?thesis using assms
    by (auto simp: nth_list_update split: if_splits option.splits)
next
  case (Deliver j)
  then show ?thesis using assms
    by (auto simp: nth_list_update split: if_splits executor.splits prod.splits)
next
  case (Abandon j)
  then show ?thesis using assms
    by (auto simp: nth_list_update split: if_splits executor.splits)
next
  case (ParentEnds x)
  then show ?thesis using assms by (auto split: if_splits)
next
  case SelectDone
  then show ?thesis using assms by (auto split: if_splits option.splits)
next
  case DeferredCancel
  then show ?thesis using assms by (auto split: coordinator.splits)
next
  case WaitReturns
  then show ?thesis using assms by (auto split: if_splits coordinator.splits)
qed

text \<open>
  With the derived scope done and actions that return once their scope is done, the
  executors can be brought to their end one after the other, from the left.
\<close>

lemma exited_prefix_update:
  "k < length xs \<Longrightarrow>
   (replicate k a @ drop k xs)[k := a] = replicate (Suc k) a @ drop (Suc k) xs"
  by (simp add: list_update_append replicate_append_same Cons_nth_drop_Suc [symmetric])

lemma exited_prefix_nth:
  "k < length xs \<Longrightarrow> (replicate k a @ drop k xs) ! k = xs ! k"
  by (simp add: nth_append)

lemma drain:
  assumes d: "derived s = Some c"
    and len: "length (executors s) = length (actions ra)"
    and coop: "\<forall>i<length (actions ra). \<forall>c. (actions ra ! i) (Some c) \<noteq> None"
  shows "k \<le> length (executors s) \<Longrightarrow>
    \<exists>mvs. race_run ra mvs s =
      Some (s\<lparr>executors := replicate k Exited @ drop k (executors s)\<rparr>)"
proof (induction k)
  case 0
  have "race_run ra [] s = Some (s\<lparr>executors := replicate 0 Exited @ drop 0 (executors s)\<rparr>)"
    by simp
  then show ?case by blast
next
  case (Suc k)
  let ?xs = "executors s"
  let ?sk = "s\<lparr>executors := replicate k Exited @ drop k ?xs\<rparr>"
  let ?sk' = "s\<lparr>executors := replicate (Suc k) Exited @ drop (Suc k) ?xs\<rparr>"
  from Suc.prems have k: "k < length ?xs" by simp
  from Suc.IH k obtain mvs where run: "race_run ra mvs s = Some ?sk" by auto
  have kk: "k < length (executors ?sk)" using k by simp
  have at: "executors ?sk ! k = ?xs ! k" using k by (simp add: exited_prefix_nth)
  have upd: "(executors ?sk)[k := Exited] = replicate (Suc k) Exited @ drop (Suc k) ?xs"
    using k by (simp add: exited_prefix_update)
  have "\<exists>more. race_run ra more ?sk = Some ?sk'"
  proof (cases "?xs ! k")
    case Running
    from coop k len obtain e where e: "(actions ra ! k) (Some c) = Some e" by fastforce
    have "race_run ra [ActionReturns k, Abandon k] ?sk =
        Some (?sk\<lparr>executors := (executors ?sk)[k := Exited]\<rparr>)"
      using Running at kk k len d e by simp
    then have "race_run ra [ActionReturns k, Abandon k] ?sk = Some ?sk'"
      using upd by simp
    then show ?thesis by blast
  next
    case (Sending e)
    have "race_run ra [Abandon k] ?sk = Some (?sk\<lparr>executors := (executors ?sk)[k := Exited]\<rparr>)"
      using Sending at kk d by simp
    then have "race_run ra [Abandon k] ?sk = Some ?sk'" using upd by simp
    then show ?thesis by blast
  next
    case Exited
    have "replicate k Exited @ drop k ?xs = replicate (Suc k) Exited @ drop (Suc k) ?xs"
      using k Exited
      by (simp add: replicate_append_same Cons_nth_drop_Suc [symmetric])
    then have "race_run ra [] ?sk = Some ?sk'" by simp
    then show ?thesis by blast
  qed
  then obtain more where "race_run ra more ?sk = Some ?sk'" ..
  with run have "race_run ra (mvs @ more) s = Some ?sk'" by (simp add: race_run_append)
  then show ?case by blast
qed

lemma join_from_joining:
  assumes inv: "race_inv ra m s" and j: "coord s = Joining r"
    and coop: "\<forall>i<length (actions ra). \<forall>c. (actions ra ! i) (Some c) \<noteq> None"
  shows "\<exists>mvs s'. race_run ra mvs s = Some s' \<and> coord s' = Returned r"
proof -
  from inv j obtain c where d: "derived s = Some c" by (auto simp: race_inv_def)
  from inv have len: "length (executors s) = length (actions ra)" by (simp add: race_inv_def)
  let ?n = "length (executors s)"
  let ?s1 = "s\<lparr>executors := replicate ?n Exited @ drop ?n (executors s)\<rparr>"
  from drain [OF d len coop, of ?n] obtain mvs where run: "race_run ra mvs s = Some ?s1"
    by auto
  have "race_run ra [WaitReturns] ?s1 = Some (?s1\<lparr>coord := Returned r\<rparr>)"
    using j by (simp add: list_all_length)
  with run have "race_run ra (mvs @ [WaitReturns]) s = Some (?s1\<lparr>coord := Returned r\<rparr>)"
    by (simp add: race_run_append)
  then show ?thesis by force
qed

lemma join_possible:
  assumes inv: "race_inv ra m s" and out: "outcome (coord s) = Some r"
    and coop: "\<forall>i<length (actions ra). \<forall>c. (actions ra ! i) (Some c) \<noteq> None"
  shows "\<exists>mvs s'. race_run ra mvs s = Some s' \<and> coord s' = Returned r"
proof (cases "coord s")
  case Selecting
  with out show ?thesis by simp
next
  case (Leaving r')
  with out have r': "r' = r" by simp
  let ?s1 = "s\<lparr>coord := Joining r,
      derived := (if derived s = None then Some Canceled else derived s)\<rparr>"
  have st: "race_step ra DeferredCancel s = Some ?s1" using Leaving r' by simp
  from race_inv_step [OF inv st] have "race_inv ra m ?s1" .
  from join_from_joining [OF this _ coop, of r]
  obtain mvs s' where "race_run ra mvs ?s1 = Some s'" "coord s' = Returned r" by auto
  with st have "race_run ra (DeferredCancel # mvs) s = Some s' \<and> coord s' = Returned r" by simp
  then show ?thesis by blast
next
  case (Joining r')
  with out have "coord s = Joining r" by simp
  from join_from_joining [OF inv this coop] show ?thesis .
next
  case (Returned r')
  with out have "race_run ra [] s = Some s \<and> coord s = Returned r" by simp
  then show ?thesis by blast
qed

text \<open>Once a scope is done it stays done, with the same error for the caller's scope.\<close>

lemma parent_step:
  "race_step ra mv s = Some s' \<Longrightarrow> parent s = Some e \<Longrightarrow> parent s' = Some e"
  by (cases mv) (auto split: if_splits option.splits executor.splits coordinator.splits
      prod.splits)

lemma parent_run:
  "race_run ra mvs s = Some s' \<Longrightarrow> parent s = Some e \<Longrightarrow> parent s' = Some e"
proof (induction mvs arbitrary: s)
  case Nil
  then show ?case by simp
next
  case (Cons mv mvs)
  then show ?case by (auto split: option.splits dest: parent_step)
qed

lemma derived_step:
  "race_step ra mv s = Some s' \<Longrightarrow> derived s \<noteq> None \<Longrightarrow> derived s' \<noteq> None"
  by (cases mv) (auto split: if_splits option.splits executor.splits coordinator.splits
      prod.splits)

text \<open>With the derived scope done, no outcome is delivered any more.\<close>

lemma no_deliver_done:
  "race_run ra mvs s = Some s' \<Longrightarrow> derived s \<noteq> None \<Longrightarrow> \<forall>j. Deliver j \<notin> set mvs"
proof (induction mvs arbitrary: s)
  case Nil
  then show ?case by simp
next
  case (Cons mv mvs)
  from Cons.prems obtain s1 where st: "race_step ra mv s = Some s1"
    and rest: "race_run ra mvs s1 = Some s'"
    by (auto split: option.splits)
  from st Cons.prems(2) have "\<forall>j. mv \<noteq> Deliver j" by (auto split: if_splits)
  moreover from derived_step [OF st Cons.prems(2)] have "derived s1 \<noteq> None" .
  from Cons.IH [OF rest this] have "\<forall>j. Deliver j \<notin> set mvs" .
  ultimately show ?case by auto
qed

text \<open>
  A coordinator that stands in its \<^verbatim>\<open>select\<close> with the caller's scope done can only
  leave through \<^verbatim>\<open>ctx.Done()\<close>, with the error of that scope and memory as it was.
\<close>

lemma done_scope_outcome:
  assumes inv: "race_inv ra m s" and sel: "coord s = Selecting" and par: "parent s = Some e"
    and run: "race_run ra mvs s = Some s'" and out: "outcome (coord s') = Some r"
  shows "r = Some (CtxErr e) \<and> mem s' = m"
proof -
  from inv sel par have d: "derived s \<noteq> None" by (simp add: race_inv_def)
  from left_select_by [OF run sel out] no_deliver_done [OF run d]
  obtain pre post where mvs: "mvs = pre @ SelectDone # post" by auto
  with run obtain s1 s2 where pre: "race_run ra pre s = Some s1"
    and st: "race_step ra SelectDone s1 = Some s2"
    and post: "race_run ra post s2 = Some s'"
    by (auto simp: race_run_append split: option.splits)
  from race_inv_run [OF inv pre] have inv1: "race_inv ra m s1" .
  from st have sel1: "coord s1 = Selecting" by (auto split: if_splits)
  from parent_run [OF pre par] have par1: "parent s1 = Some e" .
  from inv1 sel1 par1 have "derived s1 = Some e" "mem s1 = m" by (simp_all add: race_inv_def)
  with st sel1 have s2: "outcome (coord s2) = Some (Some (CtxErr e))" "mem s2 = m" by auto
  from outcome_run [OF post s2(1)] s2(2) out show ?thesis by simp
qed

text \<open>
  While no outcome has been delivered and the caller's scope is live, the coordinator
  still stands in its \<^verbatim>\<open>select\<close>.
\<close>

lemma still_selecting:
  assumes inv: "race_inv ra m s" and sel: "coord s = Selecting"
    and run: "race_run ra mvs s = Some s'" and nd: "\<forall>j. Deliver j \<notin> set mvs"
    and live: "parent s' = None"
  shows "coord s' = Selecting"
proof (rule ccontr)
  assume "coord s' \<noteq> Selecting"
  then obtain r where "outcome (coord s') = Some r" by (cases "coord s'") auto
  from left_select_by [OF run sel this] nd
  obtain pre post where "mvs = pre @ SelectDone # post" by auto
  with run obtain s1 where pre: "race_run ra pre s = Some s1"
    and rest: "race_run ra (SelectDone # post) s1 = Some s'"
    by (auto simp: race_run_append split: option.splits)
  from rest have "coord s1 = Selecting" "derived s1 \<noteq> None"
    by (auto split: option.splits if_splits)
  with race_inv_run [OF inv pre] obtain e where "parent s1 = Some e"
    by (auto simp: race_inv_def)
  from parent_run [OF rest this] live show False by simp
qed

lemma cancelled_before_delivery:
  assumes run: "race_run ra (pre @ ParentEnds e # post) (race_init ra c m) = Some s"
    and nd: "\<forall>j. Deliver j \<notin> set pre"
  shows "(\<forall>j. Deliver j \<notin> set post) \<and>
     (\<forall>r. outcome (coord s) = Some r \<longrightarrow> r = Some (CtxErr e) \<and> mem s = m)"
proof -
  from run obtain s1 s2 where pre: "race_run ra pre (race_init ra c m) = Some s1"
    and st: "race_step ra (ParentEnds e) s1 = Some s2"
    and post: "race_run ra post s2 = Some s"
    by (auto simp: race_run_append split: option.splits)
  from st have live: "parent s1 = None" by (auto split: if_splits)
  have "coord (race_init ra c m) = Selecting" by (simp add: race_init_def)
  from still_selecting [OF race_inv_init this pre nd live] have sel1: "coord s1 = Selecting" .
  from race_inv_run [OF race_inv_init pre] have inv1: "race_inv ra m s1" .
  from race_inv_step [OF inv1 st] have inv2: "race_inv ra m s2" .
  from st sel1 have sel2: "coord s2 = Selecting" and par2: "parent s2 = Some e"
    by (auto split: if_splits)
  from inv2 sel2 par2 have "derived s2 \<noteq> None" by (simp add: race_inv_def)
  from no_deliver_done [OF post this] have "\<forall>j. Deliver j \<notin> set post" .
  moreover have "\<forall>r. outcome (coord s) = Some r \<longrightarrow> r = Some (CtxErr e) \<and> mem s = m"
    using done_scope_outcome [OF inv2 sel2 par2 post] by blast
  ultimately show ?thesis by blast
qed

lemma done_at_call:
  assumes run: "race_run ra mvs (race_init ra (Some e) m) = Some s"
  shows "(\<forall>j. Deliver j \<notin> set mvs) \<and>
     (\<forall>r. outcome (coord s) = Some r \<longrightarrow> r = Some (CtxErr e) \<and> mem s = m)"
proof -
  let ?s0 = "race_init ra (Some e) m"
  have sel: "coord ?s0 = Selecting" and par: "parent ?s0 = Some e"
    and d: "derived ?s0 \<noteq> None"
    by (simp_all add: race_init_def)
  from no_deliver_done [OF run d] have "\<forall>j. Deliver j \<notin> set mvs" .
  moreover have "\<forall>r. outcome (coord s) = Some r \<longrightarrow> r = Some (CtxErr e) \<and> mem s = m"
    using done_scope_outcome [OF race_inv_init sel par run] by blast
  ultimately show ?thesis by blast
qed

text \<open>
  And it can leave through \<^verbatim>\<open>ctx.Done()\<close> whenever it stands in its \<^verbatim>\<open>select\<close>
  with the caller's scope done, whatever the error of the scope; the call can then
  return that error, with actions that return once their scope is done.
\<close>

lemma select_done_enabled:
  assumes run: "race_run ra mvs (race_init ra c m) = Some s"
    and sel: "coord s = Selecting" and par: "parent s = Some e"
  shows "race_step ra SelectDone s = Some (s\<lparr>coord := Leaving (Some (CtxErr e))\<rparr>) \<and>
     (\<forall>j. race_step ra (Deliver j) s = None) \<and>
     ((\<forall>i<length (actions ra). \<forall>c'. (actions ra ! i) (Some c') \<noteq> None) \<longrightarrow>
      (\<exists>more s'. race_run ra more s = Some s' \<and> coord s' = Returned (Some (CtxErr e))))"
proof -
  from race_inv_run [OF race_inv_init run] have inv: "race_inv ra m s" .
  from inv sel par have d: "derived s = Some e" by (simp add: race_inv_def)
  let ?s1 = "s\<lparr>coord := Leaving (Some (CtxErr e))\<rparr>"
  from sel d have st: "race_step ra SelectDone s = Some ?s1" by simp
  from d have nodel: "\<forall>j. race_step ra (Deliver j) s = None" by simp
  have "\<exists>more s'. race_run ra more s = Some s' \<and> coord s' = Returned (Some (CtxErr e))"
    if coop: "\<forall>i<length (actions ra). \<forall>c'. (actions ra ! i) (Some c') \<noteq> None"
  proof -
    from race_inv_step [OF inv st] have inv1: "race_inv ra m ?s1" .
    have "outcome (coord ?s1) = Some (Some (CtxErr e))" by simp
    from join_possible [OF inv1 this coop]
    obtain more s' where "race_run ra more ?s1 = Some s'"
      and "coord s' = Returned (Some (CtxErr e))" by blast
    with st have "race_run ra (SelectDone # more) s = Some s' \<and>
        coord s' = Returned (Some (CtxErr e))" by simp
    then show ?thesis by blast
  qed
  with st nodel show ?thesis by blast
qed

text \<open>
  C2. For every non-empty action list, every slot and every schedule, the value the
  action returned by \<^verbatim>\<open>WaitOneOf\<close> returns is settled by the way the coordinator leaves
  its \<^verbatim>\<open>select\<close>, which it does once:
  \<^item> by receiving from executor \<open>k\<close> the outcome \<open>e\<close> that action \<open>k\<close> returned, the first
    and only outcome delivered: when \<open>e\<close> is an error, that error is returned and memory
    is unchanged; when \<open>e\<close> is nil, nil is returned and the slot, when it is not nil,
    holds \<open>k\<close> (with a nil slot memory is unchanged);
  \<^item> through \<^verbatim>\<open>ctx.Done()\<close> with no outcome delivered before or after, which needs the
    caller's scope to be done: the error of that scope is returned and memory is
    unchanged.
  A value is returned in no other way, and memory is changed only together with a nil
  return value.

  When the caller's scope is cancelled before any outcome has been delivered, or is
  done already when the action is executed, no outcome is delivered afterwards, and
  whatever the call returns is the error of that scope, with memory unchanged. In that
  situation the coordinator can leave its \<^verbatim>\<open>select\<close> through \<^verbatim>\<open>ctx.Done()\<close>, whatever
  the error of the scope, no delivery is possible, and the call can return the scope's
  error when the actions return once their scope is done.
\<close>

theorem C2_WaitOneOf_resolution:
  "WaitOneOf wi acts = Inr ra \<longrightarrow>
   ((race_run ra (pre @ Deliver k # post) (race_init ra c m) = Some s \<longrightarrow>
         (\<exists>s1 e. race_run ra pre (race_init ra c m) = Some s1 \<and> coord s1 = Selecting \<and>
            k < length (actions ra) \<and> executors s1 ! k = Sending e \<and>
            (\<exists>c'. (actions ra ! k) c' = Some e) \<and> outcome (coord s) = Some e \<and>
            mem s = (if e = None then (case waitIdx ra of Ref a \<Rightarrow> m(a := int k) | NilPtr \<Rightarrow> m)
                     else m)) \<and>
         SelectDone \<notin> set pre \<and> (\<forall>j. Deliver j \<notin> set pre)) \<and>
      (race_run ra (pre @ SelectDone # post) (race_init ra c m) = Some s \<longrightarrow>
         (\<exists>s1 e. race_run ra pre (race_init ra c m) = Some s1 \<and> coord s1 = Selecting \<and>
            parent s1 = Some e \<and> outcome (coord s) = Some (Some (CtxErr e)) \<and> mem s = m) \<and>
         (\<forall>j. Deliver j \<notin> set pre \<and> Deliver j \<notin> set post)) \<and>
      (race_run ra mvs (race_init ra c m) = Some s \<and> outcome (coord s) = Some r \<longrightarrow>
         (\<exists>pre post. (\<exists>k. mvs = pre @ Deliver k # post) \<or> mvs = pre @ SelectDone # post)) \<and>
      (race_run ra mvs (race_init ra c m) = Some s \<and> mem s \<noteq> m \<longrightarrow>
         outcome (coord s) = Some None) \<and>
      (race_run ra (pre @ ParentEnds x # post) (race_init ra c m) = Some s \<and>
         (\<forall>j. Deliver j \<notin> set pre) \<longrightarrow>
         (\<forall>j. Deliver j \<notin> set post) \<and>
         (\<forall>r. outcome (coord s) = Some r \<longrightarrow> r = Some (CtxErr x) \<and> mem s = m)) \<and>
      (race_run ra mvs (race_init ra (Some x) m) = Some s \<longrightarrow>
         (\<forall>j. Deliver j \<notin> set mvs) \<and>
         (\<forall>r. outcome (coord s) = Some r \<longrightarrow> r = Some (CtxErr x) \<and> mem s = m)) \<and>
      (race_run ra mvs (race_init ra c m) = Some s \<and> coord s = Selecting \<and>
         parent s = Some x \<longrightarrow>
         race_step ra SelectDone s = Some (s\<lparr>coord := Leaving (Some (CtxErr x))\<rparr>) \<and>
         (\<forall>j. race_step ra (Deliver j) s = None) \<and>
         ((\<forall>i<length (actions ra). \<forall>c'. (actions ra ! i) (Some c') \<noteq> None) \<longrightarrow>
          (\<exists>more s'. race_run ra more s = Some s' \<and>
             coord s' = Returned (Some (CtxErr x))))))"
  (is "_ \<longrightarrow> ?delivered \<and> ?through_done \<and> ?only_ways \<and> ?written \<and> ?cancelled \<and> ?at_call \<and>
      ?enabled")
proof (rule impI)
  have "?delivered"
  proof (intro conjI impI)
    assume run: "race_run ra (pre @ Deliver k # post) (race_init ra c m) = Some s"
    then obtain s1 where pre: "race_run ra pre (race_init ra c m) = Some s1"
      and rest: "race_run ra (Deliver k # post) s1 = Some s"
      by (auto simp: race_run_append split: option.splits)
    from deliver_result [OF pre rest] pre
    show "\<exists>s1 e. race_run ra pre (race_init ra c m) = Some s1 \<and> coord s1 = Selecting \<and>
           k < length (actions ra) \<and> executors s1 ! k = Sending e \<and>
           (\<exists>c'. (actions ra ! k) c' = Some e) \<and> outcome (coord s) = Some e \<and>
           mem s = (if e = None then (case waitIdx ra of Ref a \<Rightarrow> m(a := int k) | NilPtr \<Rightarrow> m)
                    else m)"
      by blast
    from deliver_result [OF pre rest] have "coord s1 = Selecting" by blast
    from no_select_before [OF pre this]
    show "SelectDone \<notin> set pre" "\<forall>j. Deliver j \<notin> set pre" by simp_all
  qed
  moreover have "?through_done"
  proof (intro conjI impI)
    assume run: "race_run ra (pre @ SelectDone # post) (race_init ra c m) = Some s"
    then obtain s1 where pre: "race_run ra pre (race_init ra c m) = Some s1"
      and rest: "race_run ra (SelectDone # post) s1 = Some s"
      by (auto simp: race_run_append split: option.splits)
    from select_done_result [OF pre rest] pre
    show "\<exists>s1 e. race_run ra pre (race_init ra c m) = Some s1 \<and> coord s1 = Selecting \<and>
           parent s1 = Some e \<and> outcome (coord s) = Some (Some (CtxErr e)) \<and> mem s = m"
      by blast
    from select_done_result [OF pre rest] have sel: "coord s1 = Selecting" by blast
    from rest obtain s2 where st: "race_step ra SelectDone s1 = Some s2"
      and post: "race_run ra post s2 = Some s"
      by (auto split: option.splits)
    from st have "\<exists>r. outcome (coord s2) = Some r" by (auto split: if_splits option.splits)
    then obtain r where "outcome (coord s2) = Some r" ..
    from no_select_after [OF post this] no_select_before [OF pre sel]
    show "\<forall>j. Deliver j \<notin> set pre \<and> Deliver j \<notin> set post" by simp
  qed
  moreover have "?only_ways"
  proof
    assume h: "race_run ra mvs (race_init ra c m) = Some s \<and> outcome (coord s) = Some r"
    have "coord (race_init ra c m) = Selecting" by (simp add: race_init_def)
    from left_select_by [OF _ this] h
    show "\<exists>pre post. (\<exists>k. mvs = pre @ Deliver k # post) \<or> mvs = pre @ SelectDone # post"
      by blast
  qed
  moreover have "?written"
  proof
    assume h: "race_run ra mvs (race_init ra c m) = Some s \<and> mem s \<noteq> m"
    then have "race_inv ra m s" using race_inv_run [OF race_inv_init] by blast
    with h show "outcome (coord s) = Some None" by (auto simp: race_inv_def)
  qed
  moreover have "?cancelled"
    using cancelled_before_delivery [of ra pre x post c m s] by blast
  moreover have "?at_call"
    using done_at_call [of ra mvs x m s] by blast
  moreover have "?enabled"
    using select_done_enabled [of ra mvs c m s x] by blast
  ultimately show "?delivered \<and> ?through_done \<and> ?only_ways \<and> ?written \<and> ?cancelled \<and>
      ?at_call \<and> ?enabled"
    by (intro conjI)
qed

theorem C2_WaitOneOf_resolution_witness:
  "(\<exists>s. race_run \<lparr>waitIdx = Ref 0, actions = [\<lambda>c. map_option (Some \<circ> CtxErr) c, \<lambda>c. Some None]\<rparr>
          ([ActionReturns 1] @ Deliver 1 # [DeferredCancel, ActionReturns 0, Abandon 0, WaitReturns])
          (race_init \<lparr>waitIdx = Ref 0,
             actions = [\<lambda>c. map_option (Some \<circ> CtxErr) c, \<lambda>c. Some None]\<rparr> None (\<lambda>a. 7)) = Some s \<and>
        coord s = Returned None \<and> mem s = (\<lambda>a. 7)(0 := 1)) \<and>
   (\<exists>s. race_run \<lparr>waitIdx = Ref 0, actions = [\<lambda>c. Some (Some (Failure ''boom''))]\<rparr>
          ([ActionReturns 0] @ Deliver 0 # [DeferredCancel, WaitReturns])
          (race_init \<lparr>waitIdx = Ref 0, actions = [\<lambda>c. Some (Some (Failure ''boom''))]\<rparr>
             None (\<lambda>a. 7)) = Some s \<and>
        coord s = Returned (Some (Failure ''boom'')) \<and> mem s = (\<lambda>a. 7)) \<and>
   (\<exists>s. race_run \<lparr>waitIdx = Ref 0, actions = [\<lambda>c. map_option (Some \<circ> CtxErr) c]\<rparr>
          ([ParentEnds DeadlineExceeded] @ SelectDone # [DeferredCancel, ActionReturns 0, Abandon 0,
             WaitReturns])
          (race_init \<lparr>waitIdx = Ref 0, actions = [\<lambda>c. map_option (Some \<circ> CtxErr) c]\<rparr>
             None (\<lambda>a. 7)) = Some s \<and>
        coord s = Returned (Some (CtxErr DeadlineExceeded)) \<and> mem s = (\<lambda>a. 7)) \<and>
   (\<exists>s. race_run \<lparr>waitIdx = Ref 0, actions = [\<lambda>c. Some None]\<rparr>
          ([] @ ParentEnds Canceled # [ActionReturns 0, SelectDone, DeferredCancel, Abandon 0,
             WaitReturns])
          (race_init \<lparr>waitIdx = Ref 0, actions = [\<lambda>c. Some None]\<rparr> None (\<lambda>a. 7)) = Some s \<and>
        coord s = Returned (Some (CtxErr Canceled)) \<and> mem s = (\<lambda>a. 7)) \<and>
   (\<exists>s. race_run \<lparr>waitIdx = Ref 0, actions = [\<lambda>c. Some None]\<rparr>
          [ParentEnds Canceled, ActionReturns 0]
          (race_init \<lparr>waitIdx = Ref 0, actions = [\<lambda>c. Some None]\<rparr> None (\<lambda>a. 7)) = Some s \<and>
        executors s = [Sending None] \<and> coord s = Selecting \<and> parent s = Some Canceled \<and>
        race_step \<lparr>waitIdx = Ref 0, actions = [\<lambda>c. Some None]\<rparr> (Deliver 0) s = None \<and>
        race_step \<lparr>waitIdx = Ref 0, actions = [\<lambda>c. Some None]\<rparr> SelectDone s =
          Some (s\<lparr>coord := Leaving (Some (CtxErr Canceled))\<rparr>))"
proof -
  let ?ra = "\<lparr>waitIdx = Ref 0, actions = [\<lambda>c. map_option (Some \<circ> CtxErr) c, \<lambda>c. Some None]\<rparr>"
  let ?rb = "\<lparr>waitIdx = Ref 0, actions = [\<lambda>c. Some (Some (Failure ''boom''))]\<rparr>"
  let ?rc = "\<lparr>waitIdx = Ref 0, actions = [\<lambda>c. map_option (Some \<circ> CtxErr) c]\<rparr>"
  let ?rd = "\<lparr>waitIdx = Ref 0, actions = [\<lambda>c::scope. Some (None::err)]\<rparr>"
  let ?m = "\<lambda>a::nat. 7::int"
  let ?sa = "\<lparr>executors = [Exited, Exited], coord = Returned None, parent = None,
      derived = Some Canceled, mem = ?m(0 := 1)\<rparr>"
  let ?sb = "\<lparr>executors = [Exited], coord = Returned (Some (Failure ''boom'')), parent = None,
      derived = Some Canceled, mem = ?m\<rparr>"
  let ?sc = "\<lparr>executors = [Exited], coord = Returned (Some (CtxErr DeadlineExceeded)),
      parent = Some DeadlineExceeded, derived = Some DeadlineExceeded, mem = ?m\<rparr>"
  let ?sd = "\<lparr>executors = [Exited], coord = Returned (Some (CtxErr Canceled)),
      parent = Some Canceled, derived = Some Canceled, mem = ?m\<rparr>"
  let ?se = "\<lparr>executors = [Sending None], coord = Selecting, parent = Some Canceled,
      derived = Some Canceled, mem = ?m\<rparr>"
  have a: "race_run ?ra
      ([ActionReturns 1] @ Deliver 1 # [DeferredCancel, ActionReturns 0, Abandon 0, WaitReturns])
      (race_init ?ra None ?m) = Some ?sa"
    by (simp add: race_init_def received_def)
  have b: "race_run ?rb ([ActionReturns 0] @ Deliver 0 # [DeferredCancel, WaitReturns])
      (race_init ?rb None ?m) = Some ?sb"
    by (simp add: race_init_def received_def)
  have c: "race_run ?rc
      ([ParentEnds DeadlineExceeded] @ SelectDone # [DeferredCancel, ActionReturns 0, Abandon 0,
         WaitReturns])
      (race_init ?rc None ?m) = Some ?sc"
    by (simp add: race_init_def received_def)
  have d: "race_run ?rd
      ([] @ ParentEnds Canceled # [ActionReturns 0, SelectDone, DeferredCancel, Abandon 0,
         WaitReturns])
      (race_init ?rd None ?m) = Some ?sd"
    by (simp add: race_init_def received_def)
  have e: "race_run ?rd [ParentEnds Canceled, ActionReturns 0] (race_init ?rd None ?m) = Some ?se"
    by (simp add: race_init_def)
  have wa: "WaitOneOf (Ref 0) (actions ?ra) = Inr ?ra" by (simp add: WaitOneOf_def)
  have wb: "WaitOneOf (Ref 0) (actions ?rb) = Inr ?rb" by (simp add: WaitOneOf_def)
  have wc: "WaitOneOf (Ref 0) (actions ?rc) = Inr ?rc" by (simp add: WaitOneOf_def)
  have wd: "WaitOneOf (Ref 0) (actions ?rd) = Inr ?rd" by (simp add: WaitOneOf_def)
  note A = C2_WaitOneOf_resolution [where wi = "Ref 0" and acts = "actions ?ra" and ra = ?ra
      and pre = "[ActionReturns 1]" and k = 1
      and post = "[DeferredCancel, ActionReturns 0, Abandon 0, WaitReturns]"
      and c = None and m = ?m and s = ?sa, THEN mp, OF wa, THEN conjunct1, THEN mp, OF a]
  note B = C2_WaitOneOf_resolution [where wi = "Ref 0" and acts = "actions ?rb" and ra = ?rb
      and pre = "[ActionReturns 0]" and k = 0 and post = "[DeferredCancel, WaitReturns]"
      and c = None and m = ?m and s = ?sb, THEN mp, OF wb, THEN conjunct1, THEN mp, OF b]
  note C = C2_WaitOneOf_resolution [where wi = "Ref 0" and acts = "actions ?rc" and ra = ?rc
      and pre = "[ParentEnds DeadlineExceeded]"
      and post = "[DeferredCancel, ActionReturns 0, Abandon 0, WaitReturns]"
      and c = None and m = ?m and s = ?sc, THEN mp, OF wc, THEN conjunct2, THEN conjunct1,
      THEN mp, OF c]
  note D = C2_WaitOneOf_resolution [where wi = "Ref 0" and acts = "actions ?rd" and ra = ?rd
      and pre = "[]" and x = Canceled
      and post = "[ActionReturns 0, SelectDone, DeferredCancel, Abandon 0, WaitReturns]"
      and c = None and m = ?m and s = ?sd, THEN mp, OF wd, THEN conjunct2, THEN conjunct2,
      THEN conjunct2, THEN conjunct2, THEN conjunct1, THEN mp]
  note E = C2_WaitOneOf_resolution [where wi = "Ref 0" and acts = "actions ?rd" and ra = ?rd
      and mvs = "[ParentEnds Canceled, ActionReturns 0]" and x = Canceled
      and c = None and m = ?m and s = ?se, THEN mp, OF wd, THEN conjunct2, THEN conjunct2,
      THEN conjunct2, THEN conjunct2, THEN conjunct2, THEN conjunct2, THEN mp]
  from D d have pd: "\<forall>r. outcome (coord ?sd) = Some r \<longrightarrow> r = Some (CtxErr Canceled) \<and> mem ?sd = ?m"
    by simp
  from E e have pe: "race_step ?rd SelectDone ?se = Some (?se\<lparr>coord := Leaving (Some (CtxErr Canceled))\<rparr>)"
    "\<forall>j. race_step ?rd (Deliver j) ?se = None"
    by simp_all
  from a b c d e pd pe A B C show ?thesis by simp
qed

text \<open>
  C8. In every state a race can reach, under every schedule: there are as many
  executors as actions; an executor that stands at its send is not stuck there (the
  rendezvous is possible while the coordinator stands in its \<^verbatim>\<open>select\<close>, and once the
  coordinator has left it the deferred \<^verbatim>\<open>cancel()\<close> ends the derived scope and the
  executor can give the handoff up), and it leaves the send in these two ways only;
  the call has returned only when every executor has ended; and once the coordinator
  has its return value, the call can return it, with actions that return once their
  scope is done.
\<close>

theorem C8_executors_joined:
  "WaitOneOf wi acts = Inr ra \<longrightarrow>
   (race_run ra mvs (race_init ra c m) = Some s \<longrightarrow>
        length (executors s) = length (actions ra) \<and>
        (\<forall>r. coord s = Returned r \<longrightarrow> (\<forall>i<length (actions ra). executors s ! i = Exited)) \<and>
        (\<forall>i e. i < length (actions ra) \<and> executors s ! i = Sending e \<longrightarrow>
           (\<exists>s'. race_run ra [Deliver i] s = Some s' \<and> executors s' ! i = Exited) \<or>
           (\<exists>s'. race_run ra [Abandon i] s = Some s' \<and> executors s' ! i = Exited) \<or>
           (\<exists>s'. race_run ra [DeferredCancel, Abandon i] s = Some s' \<and> executors s' ! i = Exited)) \<and>
        (\<forall>i e mv s'. i < length (actions ra) \<and> executors s ! i = Sending e \<and>
             race_step ra mv s = Some s' \<longrightarrow>
           executors s' ! i = Sending e \<or>
           executors s' ! i = Exited \<and> (mv = Deliver i \<or> mv = Abandon i \<and> derived s \<noteq> None)) \<and>
        (\<forall>r. outcome (coord s) = Some r \<and>
             (\<forall>i<length (actions ra). \<forall>c. (actions ra ! i) (Some c) \<noteq> None) \<longrightarrow>
           (\<exists>more s'. race_run ra more s = Some s' \<and> coord s' = Returned r)))"
proof (intro impI)
  assume "race_run ra mvs (race_init ra c m) = Some s"
  then have inv: "race_inv ra m s" using race_inv_run [OF race_inv_init] by blast
  then have len: "length (executors s) = length (actions ra)" by (simp add: race_inv_def)
  have joined: "\<forall>r. coord s = Returned r \<longrightarrow>
      (\<forall>i<length (actions ra). executors s ! i = Exited)"
    using inv by (simp add: race_inv_def)
  have leaves: "\<forall>i e. i < length (actions ra) \<and> executors s ! i = Sending e \<longrightarrow>
        (\<exists>s'. race_run ra [Deliver i] s = Some s' \<and> executors s' ! i = Exited) \<or>
        (\<exists>s'. race_run ra [Abandon i] s = Some s' \<and> executors s' ! i = Exited) \<or>
        (\<exists>s'. race_run ra [DeferredCancel, Abandon i] s = Some s' \<and> executors s' ! i = Exited)"
    using sender_leaves [OF inv] by blast
  have exits: "\<forall>i e mv s'. i < length (actions ra) \<and> executors s ! i = Sending e \<and>
          race_step ra mv s = Some s' \<longrightarrow>
        executors s' ! i = Sending e \<or>
        executors s' ! i = Exited \<and> (mv = Deliver i \<or> mv = Abandon i \<and> derived s \<noteq> None)"
    using sender_exit [of ra _ s] len by metis
  have returns: "\<forall>r. outcome (coord s) = Some r \<and>
          (\<forall>i<length (actions ra). \<forall>c. (actions ra ! i) (Some c) \<noteq> None) \<longrightarrow>
        (\<exists>more s'. race_run ra more s = Some s' \<and> coord s' = Returned r)"
    using join_possible [OF inv] by blast
  from len joined leaves exits returns
  show "length (executors s) = length (actions ra) \<and>
     (\<forall>r. coord s = Returned r \<longrightarrow> (\<forall>i<length (actions ra). executors s ! i = Exited)) \<and>
     (\<forall>i e. i < length (actions ra) \<and> executors s ! i = Sending e \<longrightarrow>
        (\<exists>s'. race_run ra [Deliver i] s = Some s' \<and> executors s' ! i = Exited) \<or>
        (\<exists>s'. race_run ra [Abandon i] s = Some s' \<and> executors s' ! i = Exited) \<or>
        (\<exists>s'. race_run ra [DeferredCancel, Abandon i] s = Some s' \<and> executors s' ! i = Exited)) \<and>
     (\<forall>i e mv s'. i < length (actions ra) \<and> executors s ! i = Sending e \<and>
          race_step ra mv s = Some s' \<longrightarrow>
        executors s' ! i = Sending e \<or>
        executors s' ! i = Exited \<and> (mv = Deliver i \<or> mv = Abandon i \<and> derived s \<noteq> None)) \<and>
     (\<forall>r. outcome (coord s) = Some r \<and>
          (\<forall>i<length (actions ra). \<forall>c. (actions ra ! i) (Some c) \<noteq> None) \<longrightarrow>
        (\<exists>more s'. race_run ra more s = Some s' \<and> coord s' = Returned r))"
    by (intro conjI)
qed

theorem C8_executors_joined_witness:
  "(\<exists>s. race_run \<lparr>waitIdx = Ref 0, actions = [\<lambda>c. map_option (Some \<circ> CtxErr) c, \<lambda>c. Some None]\<rparr>
          [ActionReturns 1, Deliver 1, DeferredCancel, ActionReturns 0]
          (race_init \<lparr>waitIdx = Ref 0,
             actions = [\<lambda>c. map_option (Some \<circ> CtxErr) c, \<lambda>c. Some None]\<rparr> None (\<lambda>a. 7)) = Some s \<and>
        executors s ! 0 = Sending (Some (CtxErr Canceled)) \<and>
        (\<exists>s'. race_run \<lparr>waitIdx = Ref 0,
                 actions = [\<lambda>c. map_option (Some \<circ> CtxErr) c, \<lambda>c. Some None]\<rparr> [Abandon 0] s
               = Some s' \<and> executors s' ! 0 = Exited))"
proof -
  let ?ra = "\<lparr>waitIdx = Ref 0, actions = [\<lambda>c. map_option (Some \<circ> CtxErr) c, \<lambda>c. Some None]\<rparr>"
  let ?m = "\<lambda>a::nat. 7::int"
  let ?s = "\<lparr>executors = [Sending (Some (CtxErr Canceled)), Exited], coord = Joining None,
      parent = None, derived = Some Canceled, mem = ?m(0 := 1)\<rparr>"
  have a: "race_run ?ra [ActionReturns 1, Deliver 1, DeferredCancel, ActionReturns 0]
      (race_init ?ra None ?m) = Some ?s"
    by (simp add: race_init_def received_def)
  from C8_executors_joined [of "Ref 0" "actions ?ra" ?ra
      "[ActionReturns 1, Deliver 1, DeferredCancel, ActionReturns 0]"
      None ?m ?s] a
  show ?thesis by (simp add: WaitOneOf_def)
qed

end
